theory Spec2Isabelle
  imports Complex_Main "HOL-Library.AList"
begin

section \<open>Configuration constants of detector.py\<close>

definition IOU_THRESHOLD :: real where
  "IOU_THRESHOLD = 2 / 10"

definition HAND_TIMEOUT_FRAMES :: nat where
  "HAND_TIMEOUT_FRAMES = 60"

definition SCOOPER_MEMORY_FRAMES :: nat where
  "SCOOPER_MEMORY_FRAMES = 15"

definition VIOLATION_DELAY_FRAMES :: nat where
  "VIOLATION_DELAY_FRAMES = 10"

section \<open>Geometry primitives\<close>

text \<open>
  A box is the tuple \<open>(x1, y1, x2, y2)\<close> of Python ints that the detection loop builds
  with \<open>map(int, box.xyxy[0])\<close>. The source mixes these ints with the float literals
  0.2, 0.4 and 0.5; the model computes with exact reals (\<open>2/10\<close>, \<open>4/10\<close>,
  \<open>5/10\<close>), and \<open>//\<close> is \<open>div\<close> on \<open>int\<close> (both round towards minus infinity).
\<close>

type_synonym box = "int \<times> int \<times> int \<times> int"

datatype py_error = ZeroDivisionError

text \<open>Python's true division \<open>a / b\<close> on ints raises on a zero divisor.\<close>

definition truediv :: "int \<Rightarrow> int \<Rightarrow> py_error + real" where
  "truediv a b = (if b = 0 then Inl ZeroDivisionError else Inr (real_of_int a / real_of_int b))"

fun box_iou :: "box \<Rightarrow> box \<Rightarrow> py_error + real" where
  "box_iou (x1, y1, x2, y2) (x1', y1', x2', y2') =
     (let xi1 = max x1 x1';
          yi1 = max y1 y1';
          xi2 = min x2 x2';
          yi2 = min y2 y2';
          inter_area = max 0 (xi2 - xi1) * max 0 (yi2 - yi1);
          box1_area = (x2 - x1) * (y2 - y1);
          box2_area = (x2' - x1') * (y2' - y1');
          union_area = box1_area + box2_area - inter_area
      in if union_area > 0 then truediv inter_area union_area else Inr 0)"

fun box_center :: "box \<Rightarrow> int \<times> int" where
  "box_center (x1, y1, x2, y2) = ((x1 + x2) div 2, (y1 + y2) div 2)"

text \<open>A region of interest is the dict \<open>{"name", "x", "y", "w", "h"}\<close> of config.json.\<close>

record roi =
  name :: string
  rx :: int
  ry :: int
  rw :: int
  rh :: int

definition is_in_roi :: "box \<Rightarrow> roi \<Rightarrow> bool" where
  "is_in_roi bx r =
     (case box_center bx of (cx, cy) \<Rightarrow>
        rx r \<le> cx \<and> cx \<le> rx r + rw r \<and> ry r \<le> cy \<and> cy \<le> ry r + rh r)"

fun is_near_pizza :: "box \<Rightarrow> box \<Rightarrow> real \<Rightarrow> bool" where
  "is_near_pizza hand_box (px1, py1, px2, py2) margin =
     (case box_center hand_box of (hx, hy) \<Rightarrow>
        (let pw = px2 - px1;
             ph = py2 - py1;
             exp_x1 = real_of_int px1 - real_of_int pw * margin;
             exp_y1 = real_of_int py1 - real_of_int ph * margin;
             exp_x2 = real_of_int px2 + real_of_int pw * margin;
             exp_y2 = real_of_int py2 + real_of_int ph * margin
         in exp_x1 \<le> real_of_int hx \<and> real_of_int hx \<le> exp_x2 \<and>
            exp_y1 \<le> real_of_int hy \<and> real_of_int hy \<le> exp_y2))"

fun is_scooper_at_pizza :: "box list \<Rightarrow> box \<Rightarrow> real \<Rightarrow> bool" where
  "is_scooper_at_pizza [] pizza_box margin = False"
| "is_scooper_at_pizza (s_box # rest) (px1, py1, px2, py2) margin =
     (case box_center s_box of (sx, sy) \<Rightarrow>
        (let pw = px2 - px1;
             ph = py2 - py1;
             exp_x1 = real_of_int px1 - real_of_int pw * margin;
             exp_y1 = real_of_int py1 - real_of_int ph * margin;
             exp_x2 = real_of_int px2 + real_of_int pw * margin;
             exp_y2 = real_of_int py2 + real_of_int ph * margin
         in if exp_x1 \<le> real_of_int sx \<and> real_of_int sx \<le> exp_x2 \<and>
               exp_y1 \<le> real_of_int sy \<and> real_of_int sy \<le> exp_y2
            then True
            else is_scooper_at_pizza rest (px1, py1, px2, py2) margin))"

text \<open>The default arguments \<open>margin=0.5\<close> and \<open>margin=0.4\<close> of the two proximity tests.\<close>

definition hand_margin :: real where
  "hand_margin = 5 / 10"

definition scooper_margin :: real where
  "scooper_margin = 4 / 10"

section \<open>The tracker's data\<close>

text \<open>The four strings that \<open>hand_data["state"]\<close> takes.\<close>

datatype hand_state = In_roi | Tracking_to_pizza | Waiting_at_pizza | Done

record hand =
  box :: box
  state :: hand_state
  frames_since_update :: nat
  roi_name :: string

text \<open>An entry of \<open>pending_violations\<close>; \<open>pending_roi_name\<close> is its key \<open>"roi_name"\<close>.\<close>

record pending =
  frame :: int
  pizza_box :: box
  pending_roi_name :: string
  delay_counter :: nat

text \<open>A violation dict \<open>{"frame", "hand_id", "roi_name"}\<close>.\<close>

record violation =
  vframe :: int
  hand_id :: nat
  vroi_name :: string

text \<open>
  The attributes of a \<open>HandTracker\<close>. The two dicts are association lists in insertion
  order, which is the order in which Python iterates over them: assigning to a key that is
  present keeps its place, assigning to a new key appends, \<open>del\<close> removes.
\<close>

record tracker =
  next_id :: nat
  hands :: "(nat \<times> hand) list"
  violations :: "violation list"
  rois :: "roi list"
  scooper_history :: "box list list"
  pending_violations :: "(nat \<times> pending) list"

definition HandTracker :: "roi list \<Rightarrow> tracker" where
  "HandTracker rs =
     \<lparr>next_id = 0, hands = [], violations = [], rois = rs,
      scooper_history = [], pending_violations = []\<rparr>"

definition get_violation_count :: "tracker \<Rightarrow> nat" where
  "get_violation_count self = length (violations self)"

section \<open>HandTracker.update\<close>

subsection \<open>Scooper history\<close>

definition push_scoopers :: "box list list \<Rightarrow> box list \<Rightarrow> box list list" where
  "push_scoopers hist scooper_boxes =
     (let h = hist @ [scooper_boxes]
      in if length h > SCOOPER_MEMORY_FRAMES then tl h else h)"

subsection \<open>Matching the frame's hand boxes to tracked hands\<close>

text \<open>
  The inner loop over \<open>self.hands.items()\<close>: the first hand, in dict order, that is not
  matched yet and whose box overlaps the incoming one by more than the threshold.
  \<open>box_iou\<close> never raises (lemma \<open>box_iou_Inr\<close> below), so \<open>projr\<close> reads its value.
\<close>

fun find_match :: "box \<Rightarrow> nat set \<Rightarrow> (nat \<times> hand) list \<Rightarrow> (nat \<times> hand) option" where
  "find_match hand_box matched_hands [] = None"
| "find_match hand_box matched_hands ((hid, hand_data) # rest) =
     (if hid \<in> matched_hands then find_match hand_box matched_hands rest
      else if projr (box_iou hand_box (box hand_data)) > IOU_THRESHOLD
           then Some (hid, hand_data)
           else find_match hand_box matched_hands rest)"

text \<open>
  The body run for the matched hand: the box and the counter are refreshed, then the
  \<open>if/elif\<close> chain of the state machine, which may open an entry of
  \<open>pending_violations\<close> by plain assignment.
\<close>

definition state_machine ::
  "roi list \<Rightarrow> box list \<Rightarrow> int \<Rightarrow> box \<Rightarrow> nat \<Rightarrow> hand \<Rightarrow> (nat \<times> pending) list
     \<Rightarrow> hand \<times> (nat \<times> pending) list" where
  "state_machine rs pizza_boxes frame_num hand_box hid hand_data pv =
     (let old_state = state hand_data;
          hd1 = hand_data\<lparr>box := hand_box, frames_since_update := 0\<rparr>
      in case List.find (is_in_roi hand_box) rs of
           Some current_roi \<Rightarrow> (hd1\<lparr>state := In_roi, roi_name := name current_roi\<rparr>, pv)
         | None \<Rightarrow>
             if old_state = In_roi then (hd1\<lparr>state := Tracking_to_pizza\<rparr>, pv)
             else if state hd1 = Tracking_to_pizza then
               (case List.find (\<lambda>pbox. is_near_pizza hand_box pbox hand_margin)
                       pizza_boxes of
                  Some pbox \<Rightarrow>
                    (hd1\<lparr>state := Waiting_at_pizza\<rparr>,
                     AList.update hid
                       \<lparr>frame = frame_num, pizza_box = pbox,
                        pending_roi_name = roi_name hd1, delay_counter = 0\<rparr> pv)
                | None \<Rightarrow> (hd1, pv))
             else (hd1, pv))"

type_synonym match_acc = "(nat \<times> hand) list \<times> (nat \<times> pending) list \<times> nat set \<times> box list"

fun match_hands :: "roi list \<Rightarrow> box list \<Rightarrow> int \<Rightarrow> box list \<Rightarrow> match_acc \<Rightarrow> match_acc" where
  "match_hands rs pizza_boxes frame_num [] acc = acc"
| "match_hands rs pizza_boxes frame_num (hand_box # rest) (hs, pv, matched_hands, new_hands) =
     (case find_match hand_box matched_hands hs of
        Some (hid, hand_data) \<Rightarrow>
          (case state_machine rs pizza_boxes frame_num hand_box hid hand_data pv of
             (hand_data', pv') \<Rightarrow>
               match_hands rs pizza_boxes frame_num rest
                 (AList.update hid hand_data' hs, pv', insert hid matched_hands, new_hands))
      | None \<Rightarrow>
          match_hands rs pizza_boxes frame_num rest
            (hs, pv, matched_hands, new_hands @ [hand_box]))"

subsection \<open>New hands, only from a region\<close>

fun add_new_hands :: "roi list \<Rightarrow> box list \<Rightarrow> (nat \<times> hand) list \<times> nat \<Rightarrow> (nat \<times> hand) list \<times> nat" where
  "add_new_hands rs [] (hs, nid) = (hs, nid)"
| "add_new_hands rs (hand_box # rest) (hs, nid) =
     (case List.find (is_in_roi hand_box) rs of
        Some r \<Rightarrow>
          add_new_hands rs rest
            (AList.update nid
               \<lparr>box = hand_box, state = In_roi, frames_since_update = 0, roi_name = name r\<rparr> hs,
             Suc nid)
      | None \<Rightarrow> add_new_hands rs rest (hs, nid))"

subsection \<open>Pending violations\<close>

definition set_done :: "nat \<Rightarrow> (nat \<times> hand) list \<Rightarrow> (nat \<times> hand) list" where
  "set_done hid hs = AList.map_entry hid (\<lambda>h. h\<lparr>state := Done\<rparr>) hs"

text \<open>
  The loop over \<open>self.pending_violations.items()\<close>. Each visited entry is rewritten in
  place with its counter incremented; the accumulator holds the entries visited so far,
  the hands, \<open>self.violations\<close>, \<open>new_violations\<close> and \<open>resolved_pending\<close>.
\<close>

type_synonym check_acc =
  "(nat \<times> pending) list \<times> (nat \<times> hand) list \<times> violation list \<times> violation list \<times> nat list"

fun check_pending :: "box list \<Rightarrow> int \<Rightarrow> (nat \<times> pending) list \<Rightarrow> check_acc \<Rightarrow> check_acc" where
  "check_pending all_recent_scoopers frame_num [] acc = acc"
| "check_pending all_recent_scoopers frame_num ((hid, p) # rest) (pv, hs, vs, nv, resolved) =
     (let p' = p\<lparr>delay_counter := delay_counter p + 1\<rparr>;
          pv' = pv @ [(hid, p')]
      in if is_scooper_at_pizza all_recent_scoopers (pizza_box p') scooper_margin then
           check_pending all_recent_scoopers frame_num rest
             (pv', set_done hid hs, vs, nv, resolved @ [hid])
         else if delay_counter p' \<ge> VIOLATION_DELAY_FRAMES then
           (let v = \<lparr>vframe = frame_num, hand_id = hid, vroi_name = pending_roi_name p'\<rparr>
            in check_pending all_recent_scoopers frame_num rest
                 (pv', set_done hid hs, vs @ [v], nv @ [v], resolved @ [hid]))
         else check_pending all_recent_scoopers frame_num rest (pv', hs, vs, nv, resolved))"

subsection \<open>Lost hands\<close>

definition timeout_of :: "hand_state \<Rightarrow> nat" where
  "timeout_of st =
     (if st \<in> {Tracking_to_pizza, Waiting_at_pizza} then HAND_TIMEOUT_FRAMES * 2
      else HAND_TIMEOUT_FRAMES)"

text \<open>
  The loop over \<open>list(self.hands.keys())\<close>; the accumulator holds the hands visited so
  far (counter incremented in place when unmatched), \<open>pending_violations\<close> and
  \<open>lost_hands\<close>.
\<close>

type_synonym lost_acc = "(nat \<times> hand) list \<times> (nat \<times> pending) list \<times> nat list"

fun remove_lost :: "nat set \<Rightarrow> (nat \<times> hand) list \<Rightarrow> lost_acc \<Rightarrow> lost_acc" where
  "remove_lost matched_hands [] acc = acc"
| "remove_lost matched_hands ((hid, h) # rest) (hs, pv, lost_hands) =
     (if hid \<notin> matched_hands then
        (let h' = h\<lparr>frames_since_update := frames_since_update h + 1\<rparr>
         in if frames_since_update h' > timeout_of (state h') then
              remove_lost matched_hands rest
                (hs @ [(hid, h')],
                 (if hid \<in> fst ` set pv then AList.delete hid pv else pv),
                 lost_hands @ [hid])
            else remove_lost matched_hands rest (hs @ [(hid, h')], pv, lost_hands))
      else remove_lost matched_hands rest (hs @ [(hid, h)], pv, lost_hands))"

subsection \<open>The whole update\<close>

text \<open>The tracker as it stands when the loop over the pending violations starts.\<close>

definition before_check ::
  "tracker \<Rightarrow> box list \<Rightarrow> box list \<Rightarrow> box list \<Rightarrow> int \<Rightarrow> tracker \<times> nat set" where
  "before_check self hand_boxes scooper_boxes pizza_boxes frame_num =
     (case match_hands (rois self) pizza_boxes frame_num hand_boxes
             (hands self, pending_violations self, {}, []) of
        (hs1, pv1, matched_hands, new_hands) \<Rightarrow>
          (case add_new_hands (rois self) new_hands (hs1, next_id self) of
             (hs2, nid) \<Rightarrow>
               (self\<lparr>next_id := nid, hands := hs2,
                     scooper_history := push_scoopers (scooper_history self) scooper_boxes,
                     pending_violations := pv1\<rparr>,
                matched_hands)))"

text \<open>
  The tracker as it stands when the loop over the lost hands starts, with the matched ids
  and \<open>new_violations\<close>.
\<close>

definition after_check ::
  "tracker \<Rightarrow> box list \<Rightarrow> box list \<Rightarrow> box list \<Rightarrow> int
     \<Rightarrow> tracker \<times> nat set \<times> violation list" where
  "after_check self hand_boxes scooper_boxes pizza_boxes frame_num =
     (case before_check self hand_boxes scooper_boxes pizza_boxes frame_num of
        (s1, matched_hands) \<Rightarrow>
          (case check_pending (concat (scooper_history s1)) frame_num (pending_violations s1)
                  ([], hands s1, violations s1, [], []) of
             (pv2, hs3, vs, new_violations, resolved_pending) \<Rightarrow>
               (s1\<lparr>hands := hs3,
                   violations := vs,
                   pending_violations := fold AList.delete resolved_pending pv2\<rparr>,
                matched_hands, new_violations)))"

definition update ::
  "tracker \<Rightarrow> box list \<Rightarrow> box list \<Rightarrow> box list \<Rightarrow> int \<Rightarrow> tracker \<times> violation list" where
  "update self hand_boxes scooper_boxes pizza_boxes frame_num =
     (case after_check self hand_boxes scooper_boxes pizza_boxes frame_num of
        (s2, matched_hands, new_violations) \<Rightarrow>
          (case remove_lost matched_hands (hands s2) ([], pending_violations s2, []) of
             (hs4, pv4, lost_hands) \<Rightarrow>
               (s2\<lparr>hands := fold AList.delete lost_hands hs4,
                   pending_violations := pv4\<rparr>,
                new_violations)))"

text \<open>A session: the frames fed in order to one tracker; the outputs are kept per frame.\<close>

type_synonym frame_input = "box list \<times> box list \<times> box list \<times> int"

fun run :: "tracker \<Rightarrow> frame_input list \<Rightarrow> tracker \<times> violation list list" where
  "run self [] = (self, [])"
| "run self ((hand_boxes, scooper_boxes, pizza_boxes, frame_num) # rest) =
     (case update self hand_boxes scooper_boxes pizza_boxes frame_num of
        (self', new_violations) \<Rightarrow>
          (case run self' rest of (self'', outs) \<Rightarrow> (self'', new_violations # outs)))"

section \<open>Notions used to state the properties\<close>

subsection \<open>What one pass of each loop does to an entry\<close>

text \<open>
  One pass of the loop over the pending violations, entry by entry: the counter after the
  increment, the scooper test, whether the entry is resolved (by evidence or by the
  delay) and whether it is committed as a violation, and the violation dict then built.
\<close>

definition bump_pending :: "pending \<Rightarrow> pending" where
  "bump_pending p = p\<lparr>delay_counter := delay_counter p + 1\<rparr>"

definition has_evidence :: "box list \<Rightarrow> pending \<Rightarrow> bool" where
  "has_evidence sc p = is_scooper_at_pizza sc (pizza_box p) scooper_margin"

definition resolves :: "box list \<Rightarrow> nat \<times> pending \<Rightarrow> bool" where
  "resolves sc e = (has_evidence sc (snd e) \<or> delay_counter (snd e) + 1 \<ge> VIOLATION_DELAY_FRAMES)"

definition commits :: "box list \<Rightarrow> nat \<times> pending \<Rightarrow> bool" where
  "commits sc e = (\<not> has_evidence sc (snd e) \<and> delay_counter (snd e) + 1 \<ge> VIOLATION_DELAY_FRAMES)"

definition mk_violation :: "int \<Rightarrow> nat \<times> pending \<Rightarrow> violation" where
  "mk_violation fn e = \<lparr>vframe = fn, hand_id = fst e, vroi_name = pending_roi_name (snd e)\<rparr>"

text \<open>
  One pass of the loop over the lost hands, for the set \<open>m\<close> of matched ids: the hand
  after the increment of its counter, and whether it goes to \<open>lost_hands\<close>.
\<close>

definition age :: "nat set \<Rightarrow> nat \<times> hand \<Rightarrow> nat \<times> hand" where
  "age m e = (fst e, if fst e \<notin> m then (snd e)\<lparr>frames_since_update := frames_since_update (snd e) + 1\<rparr> else snd e)"

definition is_lost :: "nat set \<Rightarrow> nat \<times> hand \<Rightarrow> bool" where
  "is_lost m e = (fst e \<notin> m \<and> frames_since_update (snd e) + 1 > timeout_of (state (snd e)))"

text \<open>
  The entries that the loop over \<open>new_hands\<close> assigns into \<open>self.hands\<close>, with the ids
  it takes from \<open>next_id\<close>; lemma \<open>add_new_hands_eq\<close> shows that \<open>add_new_hands\<close>
  appends exactly these.
\<close>

fun new_entries :: "roi list \<Rightarrow> box list \<Rightarrow> nat \<Rightarrow> (nat \<times> hand) list" where
  "new_entries rs [] nid = []"
| "new_entries rs (hand_box # rest) nid =
     (case List.find (is_in_roi hand_box) rs of
        Some r \<Rightarrow>
          (nid, \<lparr>box = hand_box, state = In_roi, frames_since_update = 0, roi_name = name r\<rparr>)
            # new_entries rs rest (Suc nid)
      | None \<Rightarrow> new_entries rs rest nid)"

subsection \<open>Invariants\<close>

text \<open>
  What holds of every tracker between two updates: the keys of each dict are pairwise
  different (they are dicts), every hand id is below \<open>next_id\<close>, and every pending
  violation belongs to a live hand that is not \<open>done\<close>, has a counter below the delay
  and was opened before the hand was last matched.
\<close>

definition tracker_ok :: "tracker \<Rightarrow> bool" where
  "tracker_ok s \<longleftrightarrow>
     distinct (map fst (hands s)) \<and>
     distinct (map fst (pending_violations s)) \<and>
     (\<forall>k \<in> fst ` set (hands s). k < next_id s) \<and>
     (\<forall>k p. map_of (pending_violations s) k = Some p \<longrightarrow>
        (\<exists>h. map_of (hands s) k = Some h \<and> state h \<noteq> Done \<and>
             frames_since_update h < delay_counter p \<and>
             delay_counter p < VIOLATION_DELAY_FRAMES))"

text \<open>
  The same while the frame's hand boxes are being matched, \<open>m\<close> being the ids matched so
  far: a matched hand has a counter of 0 and, when its box centre lies in a region, is in
  state \<open>in_roi\<close> with the name of the first such region.
\<close>

definition mid_ok :: "roi list \<Rightarrow> (nat \<times> hand) list \<Rightarrow> (nat \<times> pending) list \<Rightarrow> nat set \<Rightarrow> bool" where
  "mid_ok rs hs pv m \<longleftrightarrow>
     distinct (map fst hs) \<and>
     distinct (map fst pv) \<and>
     (\<forall>k p. map_of pv k = Some p \<longrightarrow>
        (\<exists>h. map_of hs k = Some h \<and> state h \<noteq> Done \<and>
             (k \<notin> m \<longrightarrow> frames_since_update h < delay_counter p) \<and>
             delay_counter p < VIOLATION_DELAY_FRAMES)) \<and>
     (\<forall>k \<in> m. \<exists>h. map_of hs k = Some h \<and> frames_since_update h = 0 \<and>
        (\<forall>r. List.find (is_in_roi (box h)) rs = Some r \<longrightarrow>
              state h = In_roi \<and> roi_name h = name r))"

text \<open>
  Every id that keys a pending violation keys a hand.
\<close>

definition pending_owned :: "tracker \<Rightarrow> bool" where
  "pending_owned s \<longleftrightarrow> fst ` set (pending_violations s) \<subseteq> fst ` set (hands s)"

subsection \<open>The ids given to new hands\<close>




section \<open>Concrete sessions\<close>

text \<open>
  The region that \<open>load_rois\<close> falls back to when no config.json is found.
\<close>

definition cheese :: roi where
  "cheese = \<lparr>name = ''Cheese'', rx = 454, ry = 350, rw = 64, rh = 37\<rparr>"

text \<open>
  The scenario of the specification: one hand box per frame, in the region at frame 10,
  outside it (and overlapping the previous box by 3/7) from frame 11 on; a pizza box near
  the hand appears at frame 15; no scooper box at all. \<open>scenario_upto n\<close> is the tracker
  after the frames 10 to \<open>n\<close>.
\<close>

definition scenario_frame :: "int \<Rightarrow> frame_input" where
  "scenario_frame n =
     (if n = 10 then ([(440, 340, 540, 400)], [], [], n)
      else if n < 15 then ([(480, 340, 580, 400)], [], [], n)
      else ([(480, 340, 580, 400)], [], [(500, 350, 600, 450)], n))"

definition scenario_upto :: "int \<Rightarrow> tracker" where
  "scenario_upto n = fst (run (HandTracker [cheese]) (map scenario_frame [10..n]))"

text \<open>
  The scenario continued: after the violation of frame 24 the hand is back in the region
  at frame 25, leaves it at frame 26 and is near the pizza again from frame 27 on.
\<close>

definition second_pass_frame :: "int \<Rightarrow> frame_input" where
  "second_pass_frame n =
     (if n \<le> 24 then scenario_frame n
      else if n = 25 then ([(440, 340, 540, 400)], [], [(500, 350, 600, 450)], n)
      else ([(480, 340, 580, 400)], [], [(500, 350, 600, 450)], n))"

text \<open>
  The scenario cut short: no hand box arrives after frame 15, when the hand has just
  reached the pizza.
\<close>

definition lost_frame :: "int \<Rightarrow> frame_input" where
  "lost_frame n = (if n \<le> 15 then scenario_frame n else ([], [], [], n))"

definition lost_upto :: "int \<Rightarrow> tracker" where
  "lost_upto n = fst (run (HandTracker [cheese]) (map lost_frame [10..n]))"

text \<open>
  A hand seen once, in the region, at frame 10 and never again.
\<close>

definition idle_frame :: "int \<Rightarrow> frame_input" where
  "idle_frame n = (if n = 10 then scenario_frame n else ([], [], [], n))"

definition idle_upto :: "int \<Rightarrow> tracker" where
  "idle_upto n = fst (run (HandTracker [cheese]) (map idle_frame [10..n]))"

text \<open>
  A hand that leaves the region at frame 11 and is never seen again.
\<close>

definition stray_frame :: "int \<Rightarrow> frame_input" where
  "stray_frame n = (if n \<le> 11 then scenario_frame n else ([], [], [], n))"

definition stray_upto :: "int \<Rightarrow> tracker" where
  "stray_upto n = fst (run (HandTracker [cheese]) (map stray_frame [10..n]))"

text \<open>
  A hand that reaches the pizza at frame 12, goes back into the region at frame 13,
  leaves it at frame 14 and is near a pizza (a slightly different box) again at frame 15.
\<close>

definition reopen_frame :: "int \<Rightarrow> frame_input" where
  "reopen_frame n =
     (if n = 10 \<or> n = 13 then ([(440, 340, 540, 400)], [], [(500, 350, 600, 450)], n)
      else if n = 11 then ([(480, 340, 580, 400)], [], [], n)
      else if n < 15 then ([(480, 340, 580, 400)], [], [(500, 350, 600, 450)], n)
      else ([(480, 340, 580, 400)], [], [(490, 350, 600, 450)], n))"

definition reopen_upto :: "int \<Rightarrow> tracker" where
  "reopen_upto n = fst (run (HandTracker [cheese]) (map reopen_frame [10..n]))"

section \<open>Properties of the geometry primitives\<close>

lemma box_iou_Inr: "\<exists>v. box_iou a b = Inr v"
  by (cases a; cases b) (simp add: Let_def truediv_def)

lemma inter_le_area:
  fixes w h iw ih :: int
  assumes "0 \<le> iw" "iw \<le> w" "0 \<le> ih" "ih \<le> h"
  shows "iw * ih \<le> w * h"
  using assms by (intro mult_mono) auto

lemma inter_dims:
  fixes x1 x2 u1 u2 :: int
  shows "max 0 (min x2 u2 - max x1 u1) \<le> max 0 (x2 - x1)"
    and "max 0 (min x2 u2 - max x1 u1) \<le> max 0 (u2 - u1)"
    and "0 \<le> max 0 (min x2 u2 - max x1 u1)"
  by auto

text \<open>
  C8. \<open>box_iou\<close> never raises: it always returns a value \<open>r\<close>. For two boxes with
  \<open>x1 < x2\<close> and \<open>y1 < y2\<close> the value lies in \<open>[0, 1]\<close>; it is 0 when the boxes do
  not intersect, when either box has non-positive area, and when the union area is not
  positive (the guard in front of the division).
\<close>

theorem box_iou_range_and_guard:
  fixes x1 y1 x2 y2 u1 v1 u2 v2 :: int
  shows "\<exists>r. box_iou (x1, y1, x2, y2) (u1, v1, u2, v2) = Inr r \<and>
     (x1 < x2 \<and> y1 < y2 \<and> u1 < u2 \<and> v1 < v2 \<longrightarrow> 0 \<le> r \<and> r \<le> 1) \<and>
     (x2 \<le> u1 \<or> u2 \<le> x1 \<or> y2 \<le> v1 \<or> v2 \<le> y1 \<longrightarrow> r = 0) \<and>
     ((x2 - x1) * (y2 - y1) \<le> 0 \<or> (u2 - u1) * (v2 - v1) \<le> 0 \<longrightarrow> r = 0) \<and>
     ((x2 - x1) * (y2 - y1) + (u2 - u1) * (v2 - v1)
        - max 0 (min x2 u2 - max x1 u1) * max 0 (min y2 v2 - max y1 v1) \<le> 0 \<longrightarrow> r = 0)"
proof -
  define iw where "iw = max 0 (min x2 u2 - max x1 u1)"
  define ih where "ih = max 0 (min y2 v2 - max y1 v1)"
  define a1 where "a1 = (x2 - x1) * (y2 - y1)"
  define a2 where "a2 = (u2 - u1) * (v2 - v1)"
  define un where "un = a1 + a2 - iw * ih"
  define r where "r = (if un > 0 then real_of_int (iw * ih) / real_of_int un else 0)"
  have val: "box_iou (x1, y1, x2, y2) (u1, v1, u2, v2) = Inr r"
    by (simp add: Let_def truediv_def r_def un_def a1_def a2_def iw_def ih_def)
  have nonneg: "0 \<le> iw * ih"
    by (simp add: iw_def ih_def)
  have range: "0 \<le> r \<and> r \<le> 1" if v: "x1 < x2" "y1 < y2" "u1 < u2" "v1 < v2"
  proof -
    have "iw * ih \<le> (x2 - x1) * (y2 - y1)"
      using v by (intro inter_le_area) (auto simp: iw_def ih_def)
    then have le1: "iw * ih \<le> a1" by (simp add: a1_def)
    have "iw * ih \<le> (u2 - u1) * (v2 - v1)"
      using v by (intro inter_le_area) (auto simp: iw_def ih_def)
    then have le2: "iw * ih \<le> a2" by (simp add: a2_def)
    have "0 < a1" using v by (simp add: a1_def)
    with le1 le2 have pos: "0 < un" and le: "iw * ih \<le> un"
      unfolding un_def by linarith+
    have r1: "(0::real) \<le> real_of_int (iw * ih)"
      using nonneg of_int_0_le_iff by blast
    have r2: "real_of_int (iw * ih) \<le> real_of_int un"
      using le of_int_le_iff by blast
    have r3: "(0::real) < real_of_int un"
      using pos of_int_0_less_iff by blast
    have "r = real_of_int (iw * ih) / real_of_int un"
      using pos by (simp add: r_def)
    moreover have "0 \<le> real_of_int (iw * ih) / real_of_int un"
      using r1 r3 by (rule divide_nonneg_pos)
    moreover have "real_of_int (iw * ih) / real_of_int un \<le> 1"
      using r2 r3 by (simp only: divide_le_eq_1_pos)
    ultimately show ?thesis by simp
  qed
  have zero_inter: "r = 0" if "iw * ih = 0"
    using that by (simp add: r_def)
  have disjoint: "r = 0" if "x2 \<le> u1 \<or> u2 \<le> x1 \<or> y2 \<le> v1 \<or> v2 \<le> y1"
  proof -
    from that have "iw = 0 \<or> ih = 0" by (auto simp: iw_def ih_def)
    then show ?thesis by (intro zero_inter) auto
  qed
  have degenerate: "r = 0" if "a1 \<le> 0 \<or> a2 \<le> 0"
  proof -
    have "x2 - x1 \<le> 0 \<or> y2 - y1 \<le> 0 \<or> u2 - u1 \<le> 0 \<or> v2 - v1 \<le> 0"
    proof (rule ccontr)
      assume "\<not> ?thesis"
      then have "0 < (x2 - x1) * (y2 - y1)" "0 < (u2 - u1) * (v2 - v1)" by simp_all
      with that show False by (simp add: a1_def a2_def)
    qed
    then have "iw = 0 \<or> ih = 0" by (auto simp: iw_def ih_def)
    then show ?thesis by (intro zero_inter) auto
  qed
  have guard: "r = 0" if "un \<le> 0"
    using that by (simp add: r_def)
  show ?thesis
    using val range disjoint degenerate guard
    unfolding a1_def a2_def un_def iw_def ih_def by blast
qed

theorem box_iou_range_and_guard_witness:
  "box_iou (440, 340, 540, 400) (480, 340, 580, 400) = Inr (3 / 7) \<and>
   box_iou (0, 0, 10, 10) (10, 0, 20, 10) = Inr 0 \<and>
   box_iou (5, 5, 5, 9) (0, 0, 10, 10) = Inr 0 \<and>
   box_iou (3, 3, 3, 3) (4, 4, 4, 4) = Inr 0"
  using box_iou_range_and_guard [of 440 340 540 400 480 340 580 400]
    box_iou_range_and_guard [of 0 0 10 10 10 0 20 10]
    box_iou_range_and_guard [of 5 5 5 9 0 0 10 10]
    box_iou_range_and_guard [of 3 3 3 3 4 4 4 4]
  by (simp add: Let_def truediv_def)

section \<open>The loops of update in closed form\<close>

lemma check_pending_eq:
  "check_pending sc fn ps (pv, hs, vs, nv, res) =
     (pv @ map (\<lambda>e. (fst e, bump_pending (snd e))) ps,
      fold set_done (map fst (filter (resolves sc) ps)) hs,
      vs @ map (mk_violation fn) (filter (commits sc) ps),
      nv @ map (mk_violation fn) (filter (commits sc) ps),
      res @ map fst (filter (resolves sc) ps))"
proof (induction ps arbitrary: pv hs vs nv res)
  case Nil
  show ?case by simp
next
  case (Cons e ps)
  obtain k p where e: "e = (k, p)" by (cases e)
  show ?case
    unfolding e
    by (simp add: Cons.IH Let_def bump_pending_def has_evidence_def resolves_def
        commits_def mk_violation_def)
qed

lemma remove_lost_eq:
  "remove_lost m es (hs, pv, lost) =
     (hs @ map (age m) es,
      fold AList.delete (map fst (filter (is_lost m) es)) pv,
      lost @ map fst (filter (is_lost m) es))"
proof (induction es arbitrary: hs pv lost)
  case Nil
  show ?case by simp
next
  case (Cons e es)
  obtain k h where e: "e = (k, h)" by (cases e)
  have del: "(if k \<in> fst ` set pv then AList.delete k pv else pv) = AList.delete k pv" for pv :: "(nat \<times> pending) list"
    by simp
  show ?case
    unfolding e
    by (simp add: Cons.IH Let_def age_def is_lost_def del del: AList.delete_id)
qed

lemma fold_delete_eq:
  "fold AList.delete ks al = filter (\<lambda>e. fst e \<notin> set ks) al"
proof (induction ks arbitrary: al)
  case Nil
  show ?case by simp
next
  case (Cons k ks)
  have del: "AList.delete k xs = filter (\<lambda>e. fst e \<noteq> k) xs" for xs :: "('a \<times> 'b) list"
    by (induction xs) auto
  show ?case
    by (auto simp: Cons.IH del intro: filter_cong)
qed

lemma keys_set_done: "map fst (set_done k hs) = map fst hs"
  unfolding set_done_def by (induction hs) auto

lemma keys_fold_set_done: "map fst (fold set_done ks hs) = map fst hs"
  by (induction ks arbitrary: hs) (simp_all add: keys_set_done)

lemma map_of_set_done:
  "map_of (set_done k hs) k' =
     (if k' = k then map_option (\<lambda>h. h\<lparr>state := Done\<rparr>) (map_of hs k) else map_of hs k')"
  unfolding set_done_def by (simp add: AList.map_of_map_entry split: option.splits)

lemma map_of_fold_set_done_notin:
  "k \<notin> set ks \<Longrightarrow> map_of (fold set_done ks hs) k = map_of hs k"
  by (induction ks arbitrary: hs) (simp_all add: map_of_set_done)


lemma find_match_Some:
  "find_match hb m hs = Some (k, h) \<Longrightarrow> (k, h) \<in> set hs \<and> k \<notin> m"
  by (induction hs) (auto split: if_splits)

lemma find_match_map_of:
  "distinct (map fst hs) \<Longrightarrow> find_match hb m hs = Some (k, h) \<Longrightarrow> map_of hs k = Some h"
  using find_match_Some by fastforce

lemma state_machine_facts:
  assumes "state_machine rs pz fn hb k h pv = (h', pv')"
  shows "box h' = hb" and "frames_since_update h' = 0"
    and "pv' = pv \<or> (\<exists>pbox. pv' = AList.update k
            \<lparr>frame = fn, pizza_box = pbox, pending_roi_name = roi_name h, delay_counter = 0\<rparr> pv
            \<and> state h' = Waiting_at_pizza \<and> state h = Tracking_to_pizza
            \<and> List.find (\<lambda>pbox. is_near_pizza hb pbox hand_margin) pz = Some pbox
            \<and> List.find (is_in_roi hb) rs = None)"
    and "state h' = Done \<Longrightarrow> state h = Done"
    and "state h = Done \<Longrightarrow> pv' = pv"
    and "List.find (is_in_roi hb) rs = Some r \<Longrightarrow>
           state h' = In_roi \<and> roi_name h' = name r \<and> pv' = pv"
  using assms unfolding state_machine_def
  by (auto simp: Let_def split: option.splits if_splits)

lemma match_hands_rule:
  assumes init: "P hs pv m nh"
    and hit: "\<And>hb hs pv m nh k h h' pv'. P hs pv m nh \<Longrightarrow> find_match hb m hs = Some (k, h)
          \<Longrightarrow> state_machine rs pz fn hb k h pv = (h', pv')
          \<Longrightarrow> P (AList.update k h' hs) pv' (insert k m) nh"
    and miss: "\<And>hb hs pv m nh. P hs pv m nh \<Longrightarrow> find_match hb m hs = None
          \<Longrightarrow> P hs pv m (nh @ [hb])"
  shows "case match_hands rs pz fn hbs (hs, pv, m, nh) of (hs', pv', m', nh') \<Rightarrow> P hs' pv' m' nh'"
  using init
proof (induction hbs arbitrary: hs pv m nh)
  case Nil
  then show ?case by simp
next
  case (Cons hb hbs)
  show ?case
  proof (cases "find_match hb m hs")
    case None
    have "P hs pv m (nh @ [hb])" using Cons.prems None by (rule miss)
    from Cons.IH[OF this] None show ?thesis by simp
  next
    case (Some e)
    obtain k h where e: "e = (k, h)" by (cases e)
    obtain h' pv' where sm: "state_machine rs pz fn hb k h pv = (h', pv')"
      by (cases "state_machine rs pz fn hb k h pv")
    have "P (AList.update k h' hs) pv' (insert k m) nh"
      using Cons.prems Some sm unfolding e by (rule hit)
    from Cons.IH[OF this] Some sm e show ?thesis by simp
  qed
qed

lemma update_append_new: "k \<notin> fst ` set al \<Longrightarrow> AList.update k v al = al @ [(k, v)]"
  by (induction al) auto

lemma new_entries_keys:
  "map fst (new_entries rs nh nid) = [nid ..< nid + length (new_entries rs nh nid)]"
proof (induction nh arbitrary: nid)
  case Nil
  show ?case by simp
next
  case (Cons hb nh)
  show ?case
  proof (cases "List.find (is_in_roi hb) rs")
    case None
    then show ?thesis using Cons.IH[of nid] by simp
  next
    case (Some r)
    have "nid # [Suc nid ..< Suc nid + length (new_entries rs nh (Suc nid))]
        = [nid ..< nid + Suc (length (new_entries rs nh (Suc nid)))]"
      by (subst upt_rec[of nid]) simp
    then show ?thesis using Some Cons.IH[of "Suc nid"] by simp
  qed
qed

lemma new_entries_fresh:
  "(k, h) \<in> set (new_entries rs nh nid) \<Longrightarrow>
     nid \<le> k \<and> state h = In_roi \<and> frames_since_update h = 0"
proof (induction nh arbitrary: nid)
  case Nil
  then show ?case by simp
next
  case (Cons hb nh)
  then show ?case
    by (cases "List.find (is_in_roi hb) rs") (fastforce dest: Suc_leD)+
qed

lemma add_new_hands_eq:
  "\<forall>k \<in> fst ` set hs. k < nid \<Longrightarrow>
     add_new_hands rs nh (hs, nid) =
       (hs @ new_entries rs nh nid, nid + length (new_entries rs nh nid))"
proof (induction nh arbitrary: hs nid)
  case Nil
  show ?case by simp
next
  case (Cons hb nh)
  show ?case
  proof (cases "List.find (is_in_roi hb) rs")
    case None
    then show ?thesis using Cons.IH[OF Cons.prems] by simp
  next
    case (Some r)
    let ?v = "\<lparr>box = hb, state = In_roi, frames_since_update = 0, roi_name = name r\<rparr>"
    have fresh: "nid \<notin> fst ` set hs" using Cons.prems by auto
    have "\<forall>k \<in> fst ` set (hs @ [(nid, ?v)]). k < Suc nid"
      using Cons.prems by auto
    from Cons.IH[OF this] Some show ?thesis
      by (simp add: update_append_new[OF fresh])
  qed
qed

section \<open>Invariants of the tracker\<close>

lemma mid_ok_step:
  assumes ok: "mid_ok rs hs pv m"
    and fm: "find_match hb m hs = Some (k, h)"
    and sm: "state_machine rs pz fn hb k h pv = (h', pv')"
  shows "mid_ok rs (AList.update k h' hs) pv' (insert k m)"
proof -
  from ok have dh: "distinct (map fst hs)" and dp: "distinct (map fst pv)"
    by (simp_all add: mid_ok_def)
  from find_match_map_of[OF dh fm] have hk: "map_of hs k = Some h" .
  from find_match_Some[OF fm] have km: "k \<notin> m" by simp
  note f = state_machine_facts[OF sm]
  have d1: "distinct (map fst (AList.update k h' hs))"
    using dh by (rule AList.distinct_update)
  have d2: "distinct (map fst pv')"
    using f(3) dp by (auto intro: AList.distinct_update)
  have c3: "\<exists>h2. map_of (AList.update k h' hs) k2 = Some h2 \<and> state h2 \<noteq> Done \<and>
             (k2 \<notin> insert k m \<longrightarrow> frames_since_update h2 < delay_counter p2) \<and>
             delay_counter p2 < VIOLATION_DELAY_FRAMES"
    if p2: "map_of pv' k2 = Some p2" for k2 p2
  proof (cases "k2 = k")
    case False
    with p2 f(3) have "map_of pv k2 = Some p2"
      by (auto simp: AList.update_conv')
    with ok False show ?thesis
      by (auto simp: mid_ok_def AList.update_conv')
  next
    case True
    from f(3) show ?thesis
    proof
      assume same: "pv' = pv"
      from ok p2 True same obtain h0 where "map_of hs k = Some h0" "state h0 \<noteq> Done"
        "delay_counter p2 < VIOLATION_DELAY_FRAMES"
        unfolding mid_ok_def by blast
      with hk have "state h \<noteq> Done" "delay_counter p2 < VIOLATION_DELAY_FRAMES"
        by simp_all
      with f(4) True show ?thesis
        by (auto simp: AList.update_conv')
    next
      assume "\<exists>pbox. pv' = AList.update k
            \<lparr>frame = fn, pizza_box = pbox, pending_roi_name = roi_name h, delay_counter = 0\<rparr> pv
            \<and> state h' = Waiting_at_pizza \<and> state h = Tracking_to_pizza
            \<and> List.find (\<lambda>pbox. is_near_pizza hb pbox hand_margin) pz = Some pbox
            \<and> List.find (is_in_roi hb) rs = None"
      with p2 True show ?thesis
        by (auto simp: AList.update_conv' VIOLATION_DELAY_FRAMES_def)
    qed
  qed
  have c4: "\<exists>h2. map_of (AList.update k h' hs) k2 = Some h2 \<and> frames_since_update h2 = 0 \<and>
        (\<forall>r. List.find (is_in_roi (box h2)) rs = Some r \<longrightarrow>
              state h2 = In_roi \<and> roi_name h2 = name r)"
    if "k2 \<in> insert k m" for k2
  proof (cases "k2 = k")
    case True
    with f(1,2,6) show ?thesis by (auto simp: AList.update_conv')
  next
    case False
    with that ok show ?thesis by (auto simp: mid_ok_def AList.update_conv')
  qed
  show ?thesis
    unfolding mid_ok_def using d1 d2 c3 c4 by blast
qed

lemma match_hands_mid_ok:
  assumes "mid_ok rs hs pv m"
    and "match_hands rs pz fn hbs (hs, pv, m, nh) = (hs', pv', m', nh')"
  shows "mid_ok rs hs' pv' m'"
  using match_hands_rule[where P = "\<lambda>hs pv m nh. mid_ok rs hs pv m" and rs = rs and pz = pz
      and fn = fn and hbs = hbs and hs = hs and pv = pv and m = m and nh = nh, OF assms(1)]
    mid_ok_step assms(2) by auto

lemma match_hands_keys:
  assumes "match_hands rs pz fn hbs (hs, pv, m, nh) = (hs', pv', m', nh')"
  shows "map fst hs' = map fst hs"
proof -
  have "case match_hands rs pz fn hbs (hs, pv, m, nh) of
          (hs', pv', m', nh') \<Rightarrow> map fst hs' = map fst hs"
  proof (rule match_hands_rule[where P = "\<lambda>hs1 pv m nh. map fst hs1 = map fst hs"])
    show "map fst hs = map fst hs" by simp
  next
    fix hb hs1 pv m nh k h h' pv'
    assume eq: "map fst hs1 = map fst hs" and fm: "find_match hb m hs1 = Some (k, h)"
    from find_match_Some[OF fm] have "k \<in> set (map fst hs1)" by force
    then show "map fst (AList.update k h' hs1) = map fst hs"
      using eq by (simp only: AList.update_keys if_True)
  qed simp
  with assms show ?thesis by simp
qed

lemma map_of_filter_key:
  "map_of (filter (\<lambda>e. P (fst e)) al) k = (if P k then map_of al k else None)"
  by (induction al) auto

lemma map_of_bump:
  "map_of (map (\<lambda>e. (fst e, f (snd e))) al) k = map_option f (map_of al k)"
  by (induction al) auto

lemma map_of_age:
  "map_of (map (age m) hs) k =
     map_option (\<lambda>h. if k \<notin> m then h\<lparr>frames_since_update := frames_since_update h + 1\<rparr> else h)
       (map_of hs k)"
  by (induction hs) (auto simp: age_def)

lemma keys_age: "map fst (map (age m) hs) = map fst hs"
  by (induction hs) (auto simp: age_def)

lemma key_in_filter:
  assumes d: "distinct (map fst al)" and v: "map_of al k = Some v"
  shows "k \<in> set (map fst (filter Q al)) \<longleftrightarrow> Q (k, v)"
proof
  assume "k \<in> set (map fst (filter Q al))"
  then obtain v' where mem: "(k, v') \<in> set al" and q: "Q (k, v')" by auto
  from map_of_is_SomeI[OF d mem] v have "v' = v" by simp
  with q show "Q (k, v)" by simp
next
  assume q: "Q (k, v)"
  from map_of_SomeD[OF v] have "(k, v) \<in> set (filter Q al)" using q by simp
  then show "k \<in> set (map fst (filter Q al))" by force
qed

lemma mid_ok_append:
  assumes ok: "mid_ok rs hs pv m" and d: "distinct (map fst (hs @ new))"
  shows "mid_ok rs (hs @ new) pv m"
proof -
  have keep: "map_of (hs @ new) k = Some h" if "map_of hs k = Some h" for k h
    using that by (simp add: map_add_Some_iff)
  from ok have dp: "distinct (map fst pv)" by (simp add: mid_ok_def)
  have c3: "\<exists>h. map_of (hs @ new) k = Some h \<and> state h \<noteq> Done \<and>
             (k \<notin> m \<longrightarrow> frames_since_update h < delay_counter p) \<and>
             delay_counter p < VIOLATION_DELAY_FRAMES"
    if "map_of pv k = Some p" for k p
  proof -
    from ok that obtain h where "map_of hs k = Some h" "state h \<noteq> Done"
      "k \<notin> m \<longrightarrow> frames_since_update h < delay_counter p"
      "delay_counter p < VIOLATION_DELAY_FRAMES"
      unfolding mid_ok_def by blast
    with keep show ?thesis by blast
  qed
  have c4: "\<exists>h. map_of (hs @ new) k = Some h \<and> frames_since_update h = 0 \<and>
        (\<forall>r. List.find (is_in_roi (box h)) rs = Some r \<longrightarrow>
              state h = In_roi \<and> roi_name h = name r)"
    if "k \<in> m" for k
  proof -
    from ok that obtain h where "map_of hs k = Some h" "frames_since_update h = 0"
      "\<forall>r. List.find (is_in_roi (box h)) rs = Some r \<longrightarrow>
              state h = In_roi \<and> roi_name h = name r"
      unfolding mid_ok_def by blast
    with keep show ?thesis by blast
  qed
  show ?thesis
    unfolding mid_ok_def using d dp c3 c4 by blast
qed

lemma tracker_ok_mid_ok: "tracker_ok s \<Longrightarrow> mid_ok (rois s) (hands s) (pending_violations s) {}"
  unfolding tracker_ok_def mid_ok_def by auto

lemma before_check_eq:
  assumes keys: "\<forall>k \<in> fst ` set (hands self). k < next_id self"
    and mh: "match_hands (rois self) pb fn hb (hands self, pending_violations self, {}, [])
              = (hs1, pv1, m, nh)"
  shows "before_check self hb sb pb fn =
     (self\<lparr>next_id := next_id self + length (new_entries (rois self) nh (next_id self)),
           hands := hs1 @ new_entries (rois self) nh (next_id self),
           scooper_history := push_scoopers (scooper_history self) sb,
           pending_violations := pv1\<rparr>, m)"
proof -
  have "map fst hs1 = map fst (hands self)" using mh by (rule match_hands_keys)
  then have "fst ` set hs1 = fst ` set (hands self)" by (metis set_map)
  with keys have "\<forall>k \<in> fst ` set hs1. k < next_id self" by simp
  from add_new_hands_eq[OF this] mh show ?thesis
    by (simp add: before_check_def)
qed

lemma after_check_eq:
  assumes bc: "before_check self hb sb pb fn = (s1, m)"
    and sc: "sc = concat (scooper_history s1)"
    and res: "res = map fst (filter (resolves sc) (pending_violations s1))"
  shows "after_check self hb sb pb fn =
     (s1\<lparr>hands := fold set_done res (hands s1),
         violations := violations s1 @
            map (mk_violation fn) (filter (commits sc) (pending_violations s1)),
         pending_violations := filter (\<lambda>e. fst e \<notin> set res)
               (map (\<lambda>e. (fst e, bump_pending (snd e))) (pending_violations s1))\<rparr>,
      m, map (mk_violation fn) (filter (commits sc) (pending_violations s1)))"
  unfolding after_check_def bc sc res
  by (simp add: check_pending_eq fold_delete_eq)

lemma update_after_check:
  assumes ac: "after_check self hb sb pb fn = (s2, m, nv)"
    and lost: "lost = map fst (filter (is_lost m) (hands s2))"
  shows "update self hb sb pb fn =
     (s2\<lparr>hands := filter (\<lambda>e. fst e \<notin> set lost) (map (age m) (hands s2)),
         pending_violations := filter (\<lambda>e. fst e \<notin> set lost) (pending_violations s2)\<rparr>,
      nv)"
  unfolding update_def ac lost
  by (simp add: remove_lost_eq fold_delete_eq)

lemma update_eq:
  assumes bc: "before_check self hb sb pb fn = (s1, m)"
    and sc: "sc = concat (scooper_history s1)"
    and res: "res = map fst (filter (resolves sc) (pending_violations s1))"
    and hs3: "hs3 = fold set_done res (hands s1)"
    and lost: "lost = map fst (filter (is_lost m) hs3)"
  shows "update self hb sb pb fn =
     (s1\<lparr>hands := filter (\<lambda>e. fst e \<notin> set lost) (map (age m) hs3),
         violations := violations s1 @
            map (mk_violation fn) (filter (commits sc) (pending_violations s1)),
         pending_violations := filter (\<lambda>e. fst e \<notin> set lost)
            (filter (\<lambda>e. fst e \<notin> set res)
               (map (\<lambda>e. (fst e, bump_pending (snd e))) (pending_violations s1)))\<rparr>,
      map (mk_violation fn) (filter (commits sc) (pending_violations s1)))"
proof -
  note ac = after_check_eq[OF bc sc res]
  have l: "lost = map fst (filter (is_lost m) (hands (s1\<lparr>hands := fold set_done res (hands s1),
         violations := violations s1 @
            map (mk_violation fn) (filter (commits sc) (pending_violations s1)),
         pending_violations := filter (\<lambda>e. fst e \<notin> set res)
               (map (\<lambda>e. (fst e, bump_pending (snd e))) (pending_violations s1))\<rparr>)))"
    by (simp add: lost hs3)
  show ?thesis
    unfolding update_after_check[OF ac l] by (simp add: hs3)
qed

lemma before_check_ok:
  assumes tracker_ok: "tracker_ok self" and bc: "before_check self hb sb pb fn = (s1, m)"
  shows "mid_ok (rois self) (hands s1) (pending_violations s1) m"
    and "\<forall>k \<in> fst ` set (hands s1). k < next_id s1"
    and "next_id self \<le> next_id s1"
    and "map fst (hands s1) = map fst (hands self) @ [next_id self ..< next_id s1]"
proof -
  obtain hs1 pv1 m1 nh where
    mh: "match_hands (rois self) pb fn hb (hands self, pending_violations self, {}, [])
          = (hs1, pv1, m1, nh)"
    by (cases "match_hands (rois self) pb fn hb (hands self, pending_violations self, {}, [])")
  from tracker_ok have keys: "\<forall>k \<in> fst ` set (hands self). k < next_id self"
    and dh: "distinct (map fst (hands self))"
    by (simp_all add: tracker_ok_def)
  let ?new = "new_entries (rois self) nh (next_id self)"
  from before_check_eq[OF keys mh, of sb] bc
  have s1: "s1 = self\<lparr>next_id := next_id self + length ?new,
           hands := hs1 @ ?new,
           scooper_history := push_scoopers (scooper_history self) sb,
           pending_violations := pv1\<rparr>" and m: "m = m1"
    by simp_all
  have k1: "map fst hs1 = map fst (hands self)" using mh by (rule match_hands_keys)
  have knew: "map fst ?new = [next_id self ..< next_id self + length ?new]"
    by (rule new_entries_keys)
  show "next_id self \<le> next_id s1" by (simp add: s1)
  show eq: "map fst (hands s1) = map fst (hands self) @ [next_id self ..< next_id s1]"
    using k1 knew by (simp add: s1)
  have lt: "\<forall>k \<in> set (map fst (hands self)). k < next_id self"
    using keys by simp
  show "\<forall>k \<in> fst ` set (hands s1). k < next_id s1"
  proof
    fix k assume "k \<in> fst ` set (hands s1)"
    then have "k \<in> set (map fst (hands s1))" by simp
    then have "k \<in> set (map fst (hands self)) \<or> k \<in> set [next_id self ..< next_id s1]"
      unfolding eq by simp
    with lt \<open>next_id self \<le> next_id s1\<close> show "k < next_id s1" by auto
  qed
  have "distinct (map fst (hands self) @ [next_id self ..< next_id s1])"
    using dh lt by auto
  then have d: "distinct (map fst (hs1 @ ?new))" using eq by (simp add: s1)
  have "mid_ok (rois self) hs1 pv1 m1"
    using tracker_ok_mid_ok[OF tracker_ok] mh by (rule match_hands_mid_ok)
  from mid_ok_append[OF this d] show "mid_ok (rois self) (hands s1) (pending_violations s1) m"
    by (simp add: s1 m)
qed

lemma tracker_ok_update:
  assumes tracker_ok: "tracker_ok self"
  shows "tracker_ok (fst (update self hb sb pb fn))"
proof -
  obtain s1 m where bc: "before_check self hb sb pb fn = (s1, m)"
    by (cases "before_check self hb sb pb fn")
  define sc where "sc = concat (scooper_history s1)"
  define pv1 where "pv1 = pending_violations s1"
  define res where "res = map fst (filter (resolves sc) pv1)"
  define hs3 where "hs3 = fold set_done res (hands s1)"
  define lost where "lost = map fst (filter (is_lost m) hs3)"
  define hs' where "hs' = filter (\<lambda>e. fst e \<notin> set lost) (map (age m) hs3)"
  define pv' where "pv' = filter (\<lambda>e. fst e \<notin> set lost)
            (filter (\<lambda>e. fst e \<notin> set res) (map (\<lambda>e. (fst e, bump_pending (snd e))) pv1))"
  note ok = before_check_ok[OF tracker_ok bc]
  from ok(1) have dh: "distinct (map fst (hands s1))" and dp: "distinct (map fst pv1)"
    by (simp_all add: mid_ok_def pv1_def)
  have upd: "fst (update self hb sb pb fn) = s1\<lparr>hands := hs',
         violations := violations s1 @ map (mk_violation fn) (filter (commits sc) pv1),
         pending_violations := pv'\<rparr>"
    using update_eq[OF bc sc_def res_def[unfolded pv1_def] hs3_def lost_def]
    by (simp add: hs'_def pv'_def pv1_def)
  have k3: "map fst hs3 = map fst (hands s1)"
    by (simp add: hs3_def keys_fold_set_done)
  have "distinct (map fst (map (age m) hs3))"
    using dh by (simp only: keys_age k3)
  then have d1: "distinct (map fst hs')"
    unfolding hs'_def by (rule distinct_map_filter)
  have "map fst (map (\<lambda>e. (fst e, bump_pending (snd e))) pv1) = map fst pv1"
    by simp
  with dp have "distinct (map fst (map (\<lambda>e. (fst e, bump_pending (snd e))) pv1))"
    by (simp only:)
  then have d2: "distinct (map fst pv')"
    unfolding pv'_def by (intro distinct_map_filter)
  have "fst ` set hs' \<subseteq> fst ` set (hands s1)"
  proof -
    have "fst ` set hs' \<subseteq> set (map fst (map (age m) hs3))"
      unfolding hs'_def by auto
    also have "\<dots> = set (map fst (hands s1))" by (simp only: keys_age k3)
    finally show ?thesis by simp
  qed
  with ok(2) have c3: "\<forall>k \<in> fst ` set hs'. k < next_id s1" by blast
  have c4: "\<exists>h. map_of hs' k = Some h \<and> state h \<noteq> Done \<and>
             frames_since_update h < delay_counter p \<and>
             delay_counter p < VIOLATION_DELAY_FRAMES"
    if kp: "map_of pv' k = Some p" for k p
  proof -
    from kp have nl: "k \<notin> set lost" and nr: "k \<notin> set res"
      and "map_of (map (\<lambda>e. (fst e, bump_pending (snd e))) pv1) k = Some p"
      unfolding pv'_def map_of_filter_key[of "\<lambda>k. k \<notin> set lost"]
        map_of_filter_key[of "\<lambda>k. k \<notin> set res"]
      by (simp_all split: if_splits)
    then obtain p0 where p0: "map_of pv1 k = Some p0" and p: "p = bump_pending p0"
      by (auto simp: map_of_bump)
    from ok(1) p0 obtain h where h: "map_of (hands s1) k = Some h" and nd: "state h \<noteq> Done"
      and fs: "k \<notin> m \<longrightarrow> frames_since_update h < delay_counter p0"
      and dc: "delay_counter p0 < VIOLATION_DELAY_FRAMES"
      unfolding mid_ok_def pv1_def by blast
    have fm: "frames_since_update h = 0" if "k \<in> m"
    proof -
      from ok(1) that obtain h2 where "map_of (hands s1) k = Some h2"
        "frames_since_update h2 = 0" unfolding mid_ok_def by blast
      with h show ?thesis by simp
    qed
    from nr key_in_filter[OF dp p0, of "resolves sc"] have "\<not> resolves sc (k, p0)"
      by (simp add: res_def)
    then have small: "delay_counter p0 + 1 < VIOLATION_DELAY_FRAMES"
      by (simp add: resolves_def)
    from nr have h3: "map_of hs3 k = Some h"
      by (simp add: hs3_def map_of_fold_set_done_notin h)
    let ?h' = "if k \<notin> m then h\<lparr>frames_since_update := frames_since_update h + 1\<rparr> else h"
    have "map_of hs' k = Some ?h'"
      unfolding hs'_def map_of_filter_key[of "\<lambda>k. k \<notin> set lost"]
      using nl h3 by (simp add: map_of_age)
    moreover have "state ?h' \<noteq> Done" using nd by simp
    moreover have "frames_since_update ?h' < delay_counter p"
      using fs fm by (auto simp: p bump_pending_def)
    moreover have "delay_counter p < VIOLATION_DELAY_FRAMES"
      using small by (simp add: p bump_pending_def)
    ultimately show ?thesis by blast
  qed
  show ?thesis
    unfolding upd tracker_ok_def using d1 d2 c3 c4 by simp
qed

lemma tracker_ok_init: "tracker_ok (HandTracker rs)"
  by (simp add: tracker_ok_def HandTracker_def)

lemma tracker_ok_run: "tracker_ok s \<Longrightarrow> tracker_ok (fst (run s fs))"
proof (induction fs arbitrary: s)
  case Nil
  then show ?case by simp
next
  case (Cons f fs)
  obtain hb sb pb fn where f: "f = (hb, sb, pb, fn)" by (cases f)
  obtain s' out where u: "update s hb sb pb fn = (s', out)" by (cases "update s hb sb pb fn")
  obtain s'' outs where r: "run s' fs = (s'', outs)" by (cases "run s' fs")
  from tracker_ok_update[OF Cons.prems, of hb sb pb fn] u have "tracker_ok s'" by simp
  from Cons.IH[OF this] r show ?case
    by (simp add: f u)
qed

section \<open>The violation count\<close>

lemma before_check_fields:
  assumes "before_check self hb sb pb fn = (s1, m)"
  shows "violations s1 = violations self" and "rois s1 = rois self"
    and "scooper_history s1 = push_scoopers (scooper_history self) sb"
  using assms unfolding before_check_def by (auto split: prod.splits)

lemma update_violations:
  "violations (fst (update self hb sb pb fn)) = violations self @ snd (update self hb sb pb fn)"
proof -
  obtain s1 m where bc: "before_check self hb sb pb fn = (s1, m)"
    by (cases "before_check self hb sb pb fn")
  show ?thesis
    by (simp add: update_eq[OF bc refl refl refl refl] before_check_fields(1)[OF bc])
qed

lemma run_violations:
  "violations (fst (run s fs)) = violations s @ concat (snd (run s fs))"
proof (induction fs arbitrary: s)
  case Nil
  show ?case by simp
next
  case (Cons f fs)
  obtain hb sb pb fn where f: "f = (hb, sb, pb, fn)" by (cases f)
  obtain s' out where u: "update s hb sb pb fn = (s', out)" by (cases "update s hb sb pb fn")
  obtain s'' outs where r: "run s' fs = (s'', outs)" by (cases "run s' fs")
  from update_violations[of s hb sb pb fn] u have "violations s' = violations s @ out" by simp
  moreover from Cons.IH[of s'] r have "violations s'' = violations s' @ concat outs" by simp
  ultimately show ?case by (simp add: f u r)
qed

text \<open>
  C6. Every update appends exactly the records it returns to \<open>self.violations\<close>, so the
  count grows by the number of records returned and never decreases, over one update and
  over any run; from a fresh tracker the count equals the number of all records returned
  so far.
\<close>

theorem violation_count_cumulative:
  "violations (fst (update self hb sb pb fn)) = violations self @ snd (update self hb sb pb fn) \<and>
   get_violation_count (fst (update self hb sb pb fn)) =
     get_violation_count self + length (snd (update self hb sb pb fn)) \<and>
   get_violation_count self \<le> get_violation_count (fst (update self hb sb pb fn)) \<and>
   get_violation_count self \<le> get_violation_count (fst (run self frames)) \<and>
   get_violation_count (fst (run (HandTracker rs) frames)) =
     length (concat (snd (run (HandTracker rs) frames)))"
proof -
  have "violations (fst (run (HandTracker rs) frames)) = concat (snd (run (HandTracker rs) frames))"
    using run_violations[of "HandTracker rs" frames] by (simp add: HandTracker_def)
  then show ?thesis
    using update_violations[of self hb sb pb fn] run_violations[of self frames]
    by (simp add: get_violation_count_def)
qed

section \<open>Pending violations belong to live hands\<close>

lemma keys_filter: "fst ` set (filter (\<lambda>e. fst e \<notin> A) xs) = fst ` set xs - A"
  by (induction xs) auto

lemma add_new_hands_keys_grow:
  "fst ` set hs \<subseteq> fst ` set (fst (add_new_hands rs nh (hs, nid)))"
proof (induction nh arbitrary: hs nid)
  case Nil
  show ?case by simp
next
  case (Cons hb nh)
  show ?case
  proof (cases "List.find (is_in_roi hb) rs")
    case None
    then show ?thesis using Cons.IH[of hs nid] by simp
  next
    case (Some r)
    let ?hs = "AList.update nid
      \<lparr>box = hb, state = In_roi, frames_since_update = 0, roi_name = name r\<rparr> hs"
    have "fst ` set hs \<subseteq> fst ` set ?hs" by (simp add: AList.dom_update subset_insertI)
    also have "\<dots> \<subseteq> fst ` set (fst (add_new_hands rs nh (?hs, Suc nid)))" by (rule Cons.IH)
    finally show ?thesis using Some by simp
  qed
qed

lemma match_hands_owned:
  assumes own: "fst ` set pv \<subseteq> fst ` set hs"
    and mh: "match_hands rs pz fn hbs (hs, pv, m, nh) = (hs', pv', m', nh')"
  shows "fst ` set pv' \<subseteq> fst ` set hs'"
proof -
  have "case match_hands rs pz fn hbs (hs, pv, m, nh) of
          (hs', pv', m', nh') \<Rightarrow> fst ` set pv' \<subseteq> fst ` set hs'"
  proof (rule match_hands_rule[where P = "\<lambda>hs pv m nh. fst ` set pv \<subseteq> fst ` set hs"])
    show "fst ` set pv \<subseteq> fst ` set hs" by (rule own)
  next
    fix hb hs pv m nh k h h' pv'
    assume sub: "fst ` set pv \<subseteq> fst ` set hs"
      and fm: "find_match hb m hs = Some (k, h)"
      and sm: "state_machine rs pz fn hb k h pv = (h', pv')"
    from state_machine_facts(3)[OF sm] have "fst ` set pv' \<subseteq> insert k (fst ` set pv)"
      by (elim disjE exE conjE) (simp_all add: AList.dom_update subset_insertI)
    also have "\<dots> \<subseteq> insert k (fst ` set hs)" using sub by auto
    also have "\<dots> = fst ` set (AList.update k h' hs)" by (simp add: AList.dom_update)
    finally show "fst ` set pv' \<subseteq> fst ` set (AList.update k h' hs)" .
  qed simp
  with mh show ?thesis by simp
qed

lemma pending_owned_update:
  assumes own: "pending_owned self"
  shows "pending_owned (fst (update self hb sb pb fn))"
proof -
  obtain hs1 pv1 m nh where
    mh: "match_hands (rois self) pb fn hb (hands self, pending_violations self, {}, [])
          = (hs1, pv1, m, nh)"
    by (cases "match_hands (rois self) pb fn hb (hands self, pending_violations self, {}, [])")
  obtain hs2 nid where an: "add_new_hands (rois self) nh (hs1, next_id self) = (hs2, nid)"
    by (cases "add_new_hands (rois self) nh (hs1, next_id self)")
  define s1 where "s1 = self\<lparr>next_id := nid, hands := hs2,
      scooper_history := push_scoopers (scooper_history self) sb, pending_violations := pv1\<rparr>"
  have bc: "before_check self hb sb pb fn = (s1, m)"
    by (simp add: before_check_def mh an s1_def)
  have "fst ` set pv1 \<subseteq> fst ` set hs1"
    using own mh unfolding pending_owned_def by (rule match_hands_owned)
  also have "\<dots> \<subseteq> fst ` set hs2"
    using add_new_hands_keys_grow[of hs1 "rois self" nh "next_id self"] an by simp
  finally have sub: "fst ` set (pending_violations s1) \<subseteq> fst ` set (hands s1)"
    by (simp add: s1_def)
  define sc where "sc = concat (scooper_history s1)"
  define res where "res = map fst (filter (resolves sc) (pending_violations s1))"
  define hs3 where "hs3 = fold set_done res (hands s1)"
  define lost where "lost = map fst (filter (is_lost m) hs3)"
  have k3: "fst ` set (map (age m) hs3) = fst ` set (hands s1)"
    using keys_age[of m hs3] keys_fold_set_done[of res "hands s1"]
    by (metis hs3_def set_map)
  have "fst ` set (filter (\<lambda>e. fst e \<notin> set lost)
            (filter (\<lambda>e. fst e \<notin> set res)
               (map (\<lambda>e. (fst e, bump_pending (snd e))) (pending_violations s1))))
        \<subseteq> fst ` set (pending_violations s1) - set lost"
    unfolding keys_filter by force
  also have "\<dots> \<subseteq> fst ` set (map (age m) hs3) - set lost"
    using sub k3 by auto
  also have "\<dots> = fst ` set (filter (\<lambda>e. fst e \<notin> set lost) (map (age m) hs3))"
    unfolding keys_filter ..
  finally show ?thesis
    unfolding pending_owned_def update_eq[OF bc sc_def res_def hs3_def lost_def]
    by simp
qed

lemma pending_owned_run: "pending_owned s \<Longrightarrow> pending_owned (fst (run s fs))"
proof (induction fs arbitrary: s)
  case Nil
  then show ?case by simp
next
  case (Cons f fs)
  obtain hb sb pb fn where f: "f = (hb, sb, pb, fn)" by (cases f)
  obtain s' out where u: "update s hb sb pb fn = (s', out)" by (cases "update s hb sb pb fn")
  obtain s'' outs where r: "run s' fs = (s'', outs)" by (cases "run s' fs")
  from pending_owned_update[OF Cons.prems, of hb sb pb fn] u have "pending_owned s'" by simp
  from Cons.IH[OF this] r show ?case
    by (simp add: f u)
qed

text \<open>
  C9. If every key of \<open>pending_violations\<close> is a key of \<open>hands\<close> before an update, it is so
  after it; a fresh tracker has the property, hence every tracker reached by a run has it.
\<close>

theorem pending_check_has_live_hand:
  "(pending_owned self \<longrightarrow> pending_owned (fst (update self hb sb pb fn))) \<and>
   pending_owned (HandTracker rs) \<and>
   pending_owned (fst (run (HandTracker rs) frames))"
proof -
  have init: "pending_owned (HandTracker rs)"
    by (simp add: pending_owned_def HandTracker_def)
  from pending_owned_run[OF init] pending_owned_update init show ?thesis by blast
qed

theorem pending_check_has_live_hand_witness:
  "pending_owned (scenario_upto 15) \<and>
   pending_violations (scenario_upto 15) \<noteq> [] \<and>
   pending_owned (fst (update (scenario_upto 15) [] [] [] 16)) \<and>
   pending_violations (fst (update (scenario_upto 15) [] [] [] 16)) \<noteq> []"
proof -
  have h: "pending_owned (scenario_upto 15)" by code_simp
  have n: "pending_violations (scenario_upto 15) \<noteq> []" by code_simp
  have n2: "pending_violations (fst (update (scenario_upto 15) [] [] [] 16)) \<noteq> []" by code_simp
  from pending_check_has_live_hand[of "scenario_upto 15" "[]" "[]" "[]" 16] h
  have "pending_owned (fst (update (scenario_upto 15) [] [] [] 16))" by blast
  with h n n2 show ?thesis by simp
qed

section \<open>Hand ids\<close>





section \<open>Evidence clears a pending violation\<close>







section \<open>The done state is left again\<close>

lemma match_hands_origin:
  assumes mh: "match_hands rs pz fn hbs (hs0, pv0, m0, nh0) = (hs', pv', m', nh')"
  shows "\<forall>k p. map_of pv' k = Some p \<longrightarrow>
           map_of pv0 k = Some p \<or>
           (delay_counter p = 0 \<and> k \<in> m' \<and>
            (\<exists>h. map_of hs' k = Some h \<and> state h = Waiting_at_pizza))"
proof -
  let ?P = "\<lambda>hs pv m (nh :: box list). \<forall>k p. map_of pv k = Some p \<longrightarrow>
           map_of pv0 k = Some p \<or>
           (delay_counter p = 0 \<and> k \<in> m \<and>
            (\<exists>h. map_of hs k = Some h \<and> state h = Waiting_at_pizza))"
  have "case match_hands rs pz fn hbs (hs0, pv0, m0, nh0) of
          (hs', pv', m', nh') \<Rightarrow> ?P hs' pv' m' nh'"
  proof (rule match_hands_rule[where P = ?P])
    show "?P hs0 pv0 m0 nh0" by simp
  next
    fix hb hs pv m nh k h h' pv'
    assume ih: "?P hs pv m nh"
      and fm: "find_match hb m hs = Some (k, h)"
      and sm: "state_machine rs pz fn hb k h pv = (h', pv')"
    from find_match_Some[OF fm] have km: "k \<notin> m" by simp
    note f = state_machine_facts[OF sm]
    show "?P (AList.update k h' hs) pv' (insert k m) nh"
    proof (intro allI impI)
      fix k2 p2 assume p2: "map_of pv' k2 = Some p2"
      show "map_of pv0 k2 = Some p2 \<or>
           (delay_counter p2 = 0 \<and> k2 \<in> insert k m \<and>
            (\<exists>h. map_of (AList.update k h' hs) k2 = Some h \<and> state h = Waiting_at_pizza))"
      proof (cases "k2 = k")
        case False
        with p2 f(3) have "map_of pv k2 = Some p2" by (auto simp: AList.update_conv')
        with ih False show ?thesis by (auto simp: AList.update_conv')
      next
        case True
        from f(3) show ?thesis
        proof
          assume "pv' = pv"
          with p2 True ih km show ?thesis by auto
        next
          assume "\<exists>pbox. pv' = AList.update k
            \<lparr>frame = fn, pizza_box = pbox, pending_roi_name = roi_name h, delay_counter = 0\<rparr> pv
            \<and> state h' = Waiting_at_pizza \<and> state h = Tracking_to_pizza
            \<and> List.find (\<lambda>pbox. is_near_pizza hb pbox hand_margin) pz = Some pbox
            \<and> List.find (is_in_roi hb) rs = None"
          with p2 True show ?thesis by (auto simp: AList.update_conv')
        qed
      qed
    qed
  qed simp
  with mh show ?thesis by simp
qed

lemma before_check_origin:
  assumes ok: "tracker_ok self" and bc: "before_check self hb sb pb fn = (s1, m)"
    and p: "map_of (pending_violations s1) k = Some p"
  shows "map_of (pending_violations self) k = Some p \<or>
           (delay_counter p = 0 \<and> k \<in> m \<and>
            (\<exists>h. map_of (hands s1) k = Some h \<and> state h = Waiting_at_pizza))"
proof -
  obtain hs1 pv1 m1 nh where
    mh: "match_hands (rois self) pb fn hb (hands self, pending_violations self, {}, [])
          = (hs1, pv1, m1, nh)"
    by (cases "match_hands (rois self) pb fn hb (hands self, pending_violations self, {}, [])")
  from ok have keys: "\<forall>k \<in> fst ` set (hands self). k < next_id self"
    by (simp add: tracker_ok_def)
  from before_check_eq[OF keys mh, of sb] bc
  have s1: "pending_violations s1 = pv1"
    "hands s1 = hs1 @ new_entries (rois self) nh (next_id self)" "m = m1"
    by auto
  from match_hands_origin[OF mh] p s1(1)
  have "map_of (pending_violations self) k = Some p \<or>
           (delay_counter p = 0 \<and> k \<in> m1 \<and>
            (\<exists>h. map_of hs1 k = Some h \<and> state h = Waiting_at_pizza))"
    by blast
  then show ?thesis
    unfolding s1 by (auto simp: map_add_Some_iff)
qed

lemma rois_update: "rois (fst (update self hb sb pb fn)) = rois self"
proof -
  obtain s1 m where bc: "before_check self hb sb pb fn = (s1, m)"
    by (cases "before_check self hb sb pb fn")
  show ?thesis
    by (simp add: update_eq[OF bc refl refl refl refl] before_check_fields(2)[OF bc])
qed

lemma rois_run: "rois (fst (run s fs)) = rois s"
proof (induction fs arbitrary: s)
  case Nil
  show ?case by simp
next
  case (Cons f fs)
  obtain hb sb pb fn where f: "f = (hb, sb, pb, fn)" by (cases f)
  obtain s' out where u: "update s hb sb pb fn = (s', out)" by (cases "update s hb sb pb fn")
  obtain s'' outs where r: "run s' fs = (s'', outs)" by (cases "run s' fs")
  from rois_update[of s hb sb pb fn] u have "rois s' = rois s" by simp
  with Cons.IH[of s'] r show ?case by (simp add: f u)
qed

text \<open>
  C10. Take any tracker reached by a run and a hand \<open>k\<close> in state \<open>done\<close>. If the update of
  one more frame matches \<open>k\<close>, and the box recorded for \<open>k\<close> by the match has its centre in
  some region, \<open>r\<close> being the first such region, then after the update hand \<open>k\<close> is in state
  \<open>in_roi\<close> with \<open>r\<close>'s name and a counter of 0. And the state is indeed left again: in the
  session \<open>second_pass_frame\<close>, hand 0 commits a violation at frame 24, is matched in the
  region at frame 25 and commits a second violation at frame 36.
\<close>

theorem done_is_not_terminal:
  assumes reach: "self = fst (run (HandTracker rs) frames)"
    and dn: "map_of (hands self) k = Some h0" "state h0 = Done"
    and bc: "before_check self hb sb pb fn = (s1, m)"
    and matched: "k \<in> m"
    and h1: "map_of (hands s1) k = Some h1"
    and inroi: "List.find (is_in_roi (box h1)) rs = Some r"
  shows "map_of (hands (fst (update self hb sb pb fn))) k = Some h1 \<and>
         state h1 = In_roi \<and> roi_name h1 = name r \<and> frames_since_update h1 = 0 \<and>
         concat (snd (run (HandTracker [cheese]) (map second_pass_frame [10..36]))) =
           [\<lparr>vframe = 24, hand_id = 0, vroi_name = ''Cheese''\<rparr>,
            \<lparr>vframe = 36, hand_id = 0, vroi_name = ''Cheese''\<rparr>]"
proof -
  have ok: "tracker_ok self"
    unfolding reach using tracker_ok_init by (rule tracker_ok_run)
  have rs: "rois self = rs"
    unfolding reach by (simp add: rois_run HandTracker_def)
  define sc where "sc = concat (scooper_history s1)"
  define pv1 where "pv1 = pending_violations s1"
  define res where "res = map fst (filter (resolves sc) pv1)"
  define hs3 where "hs3 = fold set_done res (hands s1)"
  define lost where "lost = map fst (filter (is_lost m) hs3)"
  note upd = update_eq[OF bc sc_def res_def[unfolded pv1_def] hs3_def lost_def]
  note mid = before_check_ok(1)[OF ok bc]
  from mid have dh: "distinct (map fst (hands s1))"
    by (simp add: mid_ok_def)
  from mid matched obtain h where "map_of (hands s1) k = Some h" "frames_since_update h = 0"
    "\<forall>r. List.find (is_in_roi (box h)) (rois self) = Some r \<longrightarrow>
              state h = In_roi \<and> roi_name h = name r"
    unfolding mid_ok_def by blast
  with h1 inroi rs have st: "state h1 = In_roi" "roi_name h1 = name r"
    "frames_since_update h1 = 0" by auto
  have none: "map_of pv1 k = None"
  proof (rule ccontr)
    assume "map_of pv1 k \<noteq> None"
    then obtain p where p: "map_of (pending_violations s1) k = Some p"
      by (auto simp: pv1_def)
    from before_check_origin[OF ok bc p] show False
    proof
      assume "map_of (pending_violations self) k = Some p"
      with ok obtain h where "map_of (hands self) k = Some h" "state h \<noteq> Done"
        unfolding tracker_ok_def by blast
      with dn show False by simp
    next
      assume "delay_counter p = 0 \<and> k \<in> m \<and>
            (\<exists>h. map_of (hands s1) k = Some h \<and> state h = Waiting_at_pizza)"
      with h1 st(1) show False by auto
    qed
  qed
  have nr: "k \<notin> set res"
  proof
    assume "k \<in> set res"
    then have "k \<in> fst ` set pv1" by (auto simp: res_def)
    with none show False by (simp add: map_of_eq_None_iff)
  qed
  have h3: "map_of hs3 k = Some h1"
    unfolding hs3_def using nr h1 by (simp add: map_of_fold_set_done_notin)
  have d3: "distinct (map fst hs3)"
    unfolding hs3_def using dh by (simp add: keys_fold_set_done)
  have "\<not> is_lost m (k, h1)" using matched by (simp add: is_lost_def)
  with key_in_filter[OF d3 h3, of "is_lost m"] have nl: "k \<notin> set lost"
    by (simp add: lost_def)
  have c1: "map_of (hands (fst (update self hb sb pb fn))) k = Some h1"
    unfolding upd using nl h3 matched
    by (simp add: map_of_filter_key[of "\<lambda>k. k \<notin> set lost"] map_of_age)
  have c2: "concat (snd (run (HandTracker [cheese]) (map second_pass_frame [10..36]))) =
           [\<lparr>vframe = 24, hand_id = 0, vroi_name = ''Cheese''\<rparr>,
            \<lparr>vframe = 36, hand_id = 0, vroi_name = ''Cheese''\<rparr>]"
    by code_simp
  from c1 st c2 show ?thesis by simp
qed

theorem done_is_not_terminal_witness:
  "map_of (hands (scenario_upto 24)) 0 =
     Some \<lparr>box = (480, 340, 580, 400), state = Done, frames_since_update = 0,
           roi_name = ''Cheese''\<rparr> \<and>
   0 \<in> snd (before_check (scenario_upto 24) [(440, 340, 540, 400)] [] [] 25) \<and>
   List.find (is_in_roi (440, 340, 540, 400)) [cheese] = Some cheese \<and>
   map_of (hands (fst (update (scenario_upto 24) [(440, 340, 540, 400)] [] [] 25))) 0 =
     Some \<lparr>box = (440, 340, 540, 400), state = In_roi, frames_since_update = 0,
           roi_name = ''Cheese''\<rparr>"
proof -
  let ?h0 = "\<lparr>box = (480, 340, 580, 400), state = Done, frames_since_update = 0,
           roi_name = ''Cheese''\<rparr>"
  let ?h1 = "\<lparr>box = (440, 340, 540, 400), state = In_roi, frames_since_update = 0,
           roi_name = ''Cheese''\<rparr>"
  let ?bc = "before_check (scenario_upto 24) [(440, 340, 540, 400)] [] [] 25"
  have reach: "scenario_upto 24 = fst (run (HandTracker [cheese]) (map scenario_frame [10..24]))"
    by (simp add: scenario_upto_def)
  have dn: "map_of (hands (scenario_upto 24)) 0 = Some ?h0" by code_simp
  have st: "state ?h0 = Done" by simp
  have bc: "?bc = (fst ?bc, snd ?bc)" by simp
  have matched: "0 \<in> snd ?bc" by code_simp
  have h1: "map_of (hands (fst ?bc)) 0 = Some ?h1" by code_simp
  have box: "List.find (is_in_roi (440, 340, 540, 400)) [cheese] = Some cheese" by code_simp
  then have inroi: "List.find (is_in_roi (box ?h1)) [cheese] = Some cheese" by simp
  from done_is_not_terminal[OF reach dn st bc matched h1 inroi] dn matched box
  show ?thesis by simp
qed

section \<open>Lost hands\<close>

lemma after_check_distinct:
  assumes ok: "tracker_ok self" and ac: "after_check self hb sb pb fn = (s2, m, nv)"
  shows "distinct (map fst (hands s2))"
proof -
  obtain s1 m1 where bc: "before_check self hb sb pb fn = (s1, m1)"
    by (cases "before_check self hb sb pb fn")
  from before_check_ok(1)[OF ok bc] have "distinct (map fst (hands s1))"
    by (simp add: mid_ok_def)
  with after_check_eq[OF bc refl refl] ac show ?thesis
    by (auto simp: keys_fold_set_done)
qed

text \<open>
  In the session \<open>lost_frame\<close> the hand is last matched at frame 15, in state
  \<open>waiting_at_pizza\<close> with its pending violation open, and no hand box arrives in the
  61 frames 16 to 76. The pending violation is committed at frame 24, which sets the hand
  to \<open>done\<close>; at frame 76 the hand is removed and nothing is pending.
\<close>

theorem lost_awaiting_hand_counterexample:
  "map_of (hands (lost_upto 15)) 0 =
     Some \<lparr>box = (480, 340, 580, 400), state = Waiting_at_pizza, frames_since_update = 0,
           roi_name = ''Cheese''\<rparr> \<and>
   map fst (pending_violations (lost_upto 15)) = [0] \<and>
   map (\<lambda>n. fst (lost_frame n)) [16..76] = replicate 61 [] \<and>
   pending_violations (lost_upto 24) = [] \<and>
   violations (lost_upto 24) = [\<lparr>vframe = 24, hand_id = 0, vroi_name = ''Cheese''\<rparr>] \<and>
   hands (lost_upto 76) = [] \<and>
   pending_violations (lost_upto 76) = []"
  by code_simp

text \<open>
  C3. Take any tracker reached by a run, the update of one more frame, and a hand \<open>k\<close> as
  it stands when the loop over the lost hands starts (after the pending violations were
  checked). If \<open>k\<close> was matched in this frame, the loop leaves it as it is. If not, its
  counter is incremented; when the new counter does not exceed the timeout of its state the
  hand stays, with the incremented counter, and its pending violation, if any, is kept;
  when it exceeds the timeout, the hand and any pending violation under \<open>k\<close> are removed.
  The timeout is 60 for \<open>in_roi\<close> and \<open>done\<close>, 120 for \<open>tracking_to_pizza\<close> and
  \<open>waiting_at_pizza\<close>. The loop adds no violation. In the session \<open>idle_frame\<close> a hand
  created in the region and never matched again is still there with counter 60 and is
  gone one frame later, with no violation; in the session \<open>stray_frame\<close> a hand last
  matched in state \<open>tracking_to_pizza\<close> is still there after 61 unmatched frames.
\<close>

theorem eviction_rule:
  assumes reach: "self = fst (run (HandTracker rs) frames)"
    and ac: "after_check self hb sb pb fn = (s2, m, nv)"
    and h: "map_of (hands s2) k = Some h"
    and s': "s' = fst (update self hb sb pb fn)"
  shows "(k \<in> m \<longrightarrow> map_of (hands s') k = Some h) \<and>
         (k \<notin> m \<and> frames_since_update h + 1 \<le> timeout_of (state h) \<longrightarrow>
            map_of (hands s') k = Some (h\<lparr>frames_since_update := frames_since_update h + 1\<rparr>) \<and>
            map_of (pending_violations s') k = map_of (pending_violations s2) k) \<and>
         (k \<notin> m \<and> frames_since_update h + 1 > timeout_of (state h) \<longrightarrow>
            k \<notin> fst ` set (hands s') \<and> k \<notin> fst ` set (pending_violations s')) \<and>
         timeout_of In_roi = 60 \<and> timeout_of Done = 60 \<and>
         timeout_of Tracking_to_pizza = 120 \<and> timeout_of Waiting_at_pizza = 120 \<and>
         snd (update self hb sb pb fn) = nv \<and> violations s' = violations s2 \<and>
         hands (idle_upto 69) =
           [(0, \<lparr>box = (440, 340, 540, 400), state = In_roi, frames_since_update = 60,
                 roi_name = ''Cheese''\<rparr>)] \<and>
         hands (idle_upto 70) = [] \<and> violations (idle_upto 70) = [] \<and>
         hands (stray_upto 11) =
           [(0, \<lparr>box = (480, 340, 580, 400), state = Tracking_to_pizza,
                 frames_since_update = 0, roi_name = ''Cheese''\<rparr>)] \<and>
         hands (stray_upto 72) =
           [(0, \<lparr>box = (480, 340, 580, 400), state = Tracking_to_pizza,
                 frames_since_update = 61, roi_name = ''Cheese''\<rparr>)]"
proof -
  have ok: "tracker_ok self"
    unfolding reach using tracker_ok_init by (rule tracker_ok_run)
  have d2: "distinct (map fst (hands s2))" using ok ac by (rule after_check_distinct)
  define lost where "lost = map fst (filter (is_lost m) (hands s2))"
  note upd = update_after_check[OF ac lost_def]
  have lost_iff: "k \<in> set lost \<longleftrightarrow> is_lost m (k, h)"
    unfolding lost_def by (rule key_in_filter[OF d2 h])
  have hk: "map_of (hands s') k =
      (if k \<in> set lost then None
       else Some (if k \<notin> m then h\<lparr>frames_since_update := frames_since_update h + 1\<rparr> else h))"
    unfolding s' upd using h
    by (simp add: map_of_filter_key[of "\<lambda>k. k \<notin> set lost"] map_of_age)
  have pk: "map_of (pending_violations s') k =
      (if k \<in> set lost then None else map_of (pending_violations s2) k)"
    unfolding s' upd by (simp add: map_of_filter_key[of "\<lambda>k. k \<notin> set lost"])
  have c1: "k \<in> m \<longrightarrow> map_of (hands s') k = Some h"
    using hk lost_iff by (simp add: is_lost_def)
  have c2: "k \<notin> m \<and> frames_since_update h + 1 \<le> timeout_of (state h) \<longrightarrow>
            map_of (hands s') k = Some (h\<lparr>frames_since_update := frames_since_update h + 1\<rparr>) \<and>
            map_of (pending_violations s') k = map_of (pending_violations s2) k"
    using hk pk lost_iff by (simp add: is_lost_def)
  have c3: "k \<notin> m \<and> frames_since_update h + 1 > timeout_of (state h) \<longrightarrow>
            k \<notin> fst ` set (hands s') \<and> k \<notin> fst ` set (pending_violations s')"
  proof
    assume "k \<notin> m \<and> frames_since_update h + 1 > timeout_of (state h)"
    with lost_iff have "k \<in> set lost" by (simp add: is_lost_def)
    with hk pk have "map_of (hands s') k = None" "map_of (pending_violations s') k = None"
      by simp_all
    then show "k \<notin> fst ` set (hands s') \<and> k \<notin> fst ` set (pending_violations s')"
      by (simp add: map_of_eq_None_iff)
  qed
  have c4: "timeout_of In_roi = 60 \<and> timeout_of Done = 60 \<and>
         timeout_of Tracking_to_pizza = 120 \<and> timeout_of Waiting_at_pizza = 120"
    by (simp add: timeout_of_def HAND_TIMEOUT_FRAMES_def)
  have c5: "snd (update self hb sb pb fn) = nv \<and> violations s' = violations s2"
    unfolding s' upd by simp
  have e1: "hands (idle_upto 69) =
           [(0, \<lparr>box = (440, 340, 540, 400), state = In_roi, frames_since_update = 60,
                 roi_name = ''Cheese''\<rparr>)]"
    by code_simp
  have e2: "hands (idle_upto 70) = [] \<and> violations (idle_upto 70) = []"
    by code_simp
  have e3: "hands (stray_upto 11) =
           [(0, \<lparr>box = (480, 340, 580, 400), state = Tracking_to_pizza,
                 frames_since_update = 0, roi_name = ''Cheese''\<rparr>)]"
    by code_simp
  have e4: "hands (stray_upto 72) =
           [(0, \<lparr>box = (480, 340, 580, 400), state = Tracking_to_pizza,
                 frames_since_update = 61, roi_name = ''Cheese''\<rparr>)]"
    by code_simp
  from c1 c2 c3 c4 c5 e1 e2 e3 e4 show ?thesis by blast
qed

theorem eviction_rule_witness:
  "map_of (hands (fst (after_check (idle_upto 69) [] [] [] 70))) 0 =
     Some \<lparr>box = (440, 340, 540, 400), state = In_roi, frames_since_update = 60,
           roi_name = ''Cheese''\<rparr> \<and>
   0 \<notin> fst (snd (after_check (idle_upto 69) [] [] [] 70)) \<and>
   0 \<notin> fst ` set (hands (fst (update (idle_upto 69) [] [] [] 70))) \<and>
   map_of (hands (fst (after_check (stray_upto 71) [] [] [] 72))) 0 =
     Some \<lparr>box = (480, 340, 580, 400), state = Tracking_to_pizza, frames_since_update = 60,
           roi_name = ''Cheese''\<rparr> \<and>
   0 \<notin> fst (snd (after_check (stray_upto 71) [] [] [] 72)) \<and>
   map_of (hands (fst (update (stray_upto 71) [] [] [] 72))) 0 =
     Some \<lparr>box = (480, 340, 580, 400), state = Tracking_to_pizza, frames_since_update = 61,
           roi_name = ''Cheese''\<rparr> \<and>
   map_of (hands (fst (after_check (stray_upto 10) [(480, 340, 580, 400)] [] [] 11))) 0 =
     Some \<lparr>box = (480, 340, 580, 400), state = Tracking_to_pizza, frames_since_update = 0,
           roi_name = ''Cheese''\<rparr> \<and>
   0 \<in> fst (snd (after_check (stray_upto 10) [(480, 340, 580, 400)] [] [] 11)) \<and>
   map_of (hands (fst (update (stray_upto 10) [(480, 340, 580, 400)] [] [] 11))) 0 =
     Some \<lparr>box = (480, 340, 580, 400), state = Tracking_to_pizza, frames_since_update = 0,
           roi_name = ''Cheese''\<rparr>"
proof -
  let ?a1 = "after_check (idle_upto 69) [] [] [] 70"
  let ?h1 = "\<lparr>box = (440, 340, 540, 400), state = In_roi, frames_since_update = 60,
           roi_name = ''Cheese''\<rparr>"
  have r1: "idle_upto 69 = fst (run (HandTracker [cheese]) (map idle_frame [10..69]))"
    by (simp add: idle_upto_def)
  have a1: "?a1 = (fst ?a1, fst (snd ?a1), snd (snd ?a1))" by simp
  have h1: "map_of (hands (fst ?a1)) 0 = Some ?h1" by code_simp
  have m1: "0 \<notin> fst (snd ?a1)" by code_simp
  have t1: "frames_since_update ?h1 + 1 > timeout_of (state ?h1)"
    by (simp add: timeout_of_def HAND_TIMEOUT_FRAMES_def)
  from eviction_rule[OF r1 a1 h1 refl] m1 t1
  have w1: "0 \<notin> fst ` set (hands (fst (update (idle_upto 69) [] [] [] 70)))" by blast
  let ?a2 = "after_check (stray_upto 71) [] [] [] 72"
  let ?h2 = "\<lparr>box = (480, 340, 580, 400), state = Tracking_to_pizza, frames_since_update = 60,
           roi_name = ''Cheese''\<rparr>"
  have r2: "stray_upto 71 = fst (run (HandTracker [cheese]) (map stray_frame [10..71]))"
    by (simp add: stray_upto_def)
  have a2: "?a2 = (fst ?a2, fst (snd ?a2), snd (snd ?a2))" by simp
  have h2: "map_of (hands (fst ?a2)) 0 = Some ?h2" by code_simp
  have m2: "0 \<notin> fst (snd ?a2)" by code_simp
  have t2: "frames_since_update ?h2 + 1 \<le> timeout_of (state ?h2)"
    by (simp add: timeout_of_def HAND_TIMEOUT_FRAMES_def)
  from eviction_rule[OF r2 a2 h2 refl] m2 t2
  have w2: "map_of (hands (fst (update (stray_upto 71) [] [] [] 72))) 0
      = Some (?h2\<lparr>frames_since_update := frames_since_update ?h2 + 1\<rparr>)" by blast
  let ?a3 = "after_check (stray_upto 10) [(480, 340, 580, 400)] [] [] 11"
  let ?h3 = "\<lparr>box = (480, 340, 580, 400), state = Tracking_to_pizza, frames_since_update = 0,
           roi_name = ''Cheese''\<rparr>"
  have r3: "stray_upto 10 = fst (run (HandTracker [cheese]) (map stray_frame [10..10]))"
    by (simp add: stray_upto_def)
  have a3: "?a3 = (fst ?a3, fst (snd ?a3), snd (snd ?a3))" by simp
  have h3: "map_of (hands (fst ?a3)) 0 = Some ?h3" by code_simp
  have m3: "0 \<in> fst (snd ?a3)" by code_simp
  from eviction_rule[OF r3 a3 h3 refl] m3
  have w3: "map_of (hands (fst (update (stray_upto 10) [(480, 340, 580, 400)] [] [] 11))) 0
      = Some ?h3" by blast
  from h1 m1 w1 h2 m2 w2 h3 m3 w3 show ?thesis by simp
qed

section \<open>Opening a pending violation\<close>

text \<open>
  In the session \<open>reopen_frame\<close> hand 0 reaches the pizza at frame 12, goes back into the
  region at frame 13 and leaves it at frame 14, its pending violation still open with a
  counter of 3. At frame 15 it is near a pizza again: when the matching is over, the entry
  under id 0 is a new one, with the new frame, the new pizza box and a counter of 0.
\<close>

theorem open_pending_overwritten_counterexample:
  "hands (reopen_upto 14) =
     [(0, \<lparr>box = (480, 340, 580, 400), state = Tracking_to_pizza, frames_since_update = 0,
           roi_name = ''Cheese''\<rparr>)] \<and>
   pending_violations (reopen_upto 14) =
     [(0, \<lparr>frame = 12, pizza_box = (500, 350, 600, 450), pending_roi_name = ''Cheese'',
           delay_counter = 3\<rparr>)] \<and>
   pending_violations (fst (before_check (reopen_upto 14)
       [(480, 340, 580, 400)] [] [(490, 350, 600, 450)] 15)) =
     [(0, \<lparr>frame = 15, pizza_box = (490, 350, 600, 450), pending_roi_name = ''Cheese'',
           delay_counter = 0\<rparr>)]"
  by code_simp

text \<open>
  C4. When the matched hand is in state \<open>tracking_to_pizza\<close>, its box centre lies in no
  region and \<open>pbox\<close> is the first pizza box it is near (margin 0.5), the state machine
  sets the hand to \<open>waiting_at_pizza\<close> and assigns a new entry under the hand's id: the
  current frame, \<open>pbox\<close>, the hand's region name and a counter of 0. An entry already
  open under that id is replaced, in its place; a missing one is appended; the entries
  of other ids are untouched. For a frame with one hand box this is what
  \<open>pending_violations\<close> holds when the matching is over.
\<close>

theorem tracking_hand_at_pizza_reopens:
  assumes st: "state h = Tracking_to_pizza"
    and out: "List.find (is_in_roi hb) rs = None"
    and near: "List.find (\<lambda>pbox. is_near_pizza hb pbox hand_margin) pz = Some pbox"
    and fresh: "fresh = \<lparr>frame = fn, pizza_box = pbox, pending_roi_name = roi_name h,
                         delay_counter = 0\<rparr>"
  shows "state_machine rs pz fn hb k h pv =
           (h\<lparr>box := hb, frames_since_update := 0, state := Waiting_at_pizza\<rparr>,
            AList.update k fresh pv) \<and>
         map_of (AList.update k fresh pv) k = Some fresh \<and>
         (\<forall>k'. k' \<noteq> k \<longrightarrow> map_of (AList.update k fresh pv) k' = map_of pv k') \<and>
         (k \<in> fst ` set pv \<longrightarrow> map fst (AList.update k fresh pv) = map fst pv) \<and>
         (k \<notin> fst ` set pv \<longrightarrow> AList.update k fresh pv = pv @ [(k, fresh)]) \<and>
         (rois self = rs \<and> find_match hb {} (hands self) = Some (k, h) \<longrightarrow>
            pending_violations (fst (before_check self [hb] sb pz fn)) =
              AList.update k fresh (pending_violations self))"
proof -
  have sm: "state_machine rs pz fn hb k h pv =
           (h\<lparr>box := hb, frames_since_update := 0, state := Waiting_at_pizza\<rparr>,
            AList.update k fresh pv)" for pv
    using st out near by (simp add: state_machine_def Let_def fresh)
  have bc: "pending_violations (fst (before_check self [hb] sb pz fn)) =
              AList.update k fresh (pending_violations self)"
    if "rois self = rs" "find_match hb {} (hands self) = Some (k, h)"
    using that by (simp add: before_check_def sm split: prod.splits)
  show ?thesis
    using sm bc by (simp add: AList.update_conv' AList.update_keys update_append_new)
qed

theorem tracking_hand_at_pizza_reopens_witness:
  "find_match (480, 340, 580, 400) {} (hands (reopen_upto 14)) =
     Some (0, \<lparr>box = (480, 340, 580, 400), state = Tracking_to_pizza,
               frames_since_update = 0, roi_name = ''Cheese''\<rparr>) \<and>
   List.find (is_in_roi (480, 340, 580, 400)) [cheese] = None \<and>
   List.find (\<lambda>pbox. is_near_pizza (480, 340, 580, 400) pbox hand_margin)
     [(490, 350, 600, 450)] = Some (490, 350, 600, 450) \<and>
   0 \<in> fst ` set (pending_violations (reopen_upto 14)) \<and>
   pending_violations (fst (before_check (reopen_upto 14)
       [(480, 340, 580, 400)] [] [(490, 350, 600, 450)] 15)) =
     AList.update 0 \<lparr>frame = 15, pizza_box = (490, 350, 600, 450),
                     pending_roi_name = ''Cheese'', delay_counter = 0\<rparr>
       (pending_violations (reopen_upto 14))"
proof -
  let ?h = "\<lparr>box = (480, 340, 580, 400), state = Tracking_to_pizza,
               frames_since_update = 0, roi_name = ''Cheese''\<rparr>"
  have st: "state ?h = Tracking_to_pizza" by simp
  have out: "List.find (is_in_roi (480, 340, 580, 400)) [cheese] = None" by code_simp
  have near: "List.find (\<lambda>pbox. is_near_pizza (480, 340, 580, 400) pbox hand_margin)
     [(490, 350, 600, 450)] = Some (490, 350, 600, 450)" by code_simp
  have fm: "find_match (480, 340, 580, 400) {} (hands (reopen_upto 14)) = Some (0, ?h)"
    by code_simp
  have rs: "rois (reopen_upto 14) = [cheese]" by code_simp
  have mem: "0 \<in> fst ` set (pending_violations (reopen_upto 14))" by code_simp
  from tracking_hand_at_pizza_reopens[OF st out near refl, of 15 0 "[]" "reopen_upto 14" "[]"]
    rs fm out near mem
  show ?thesis by simp
qed

section \<open>Replayed frames and the scenario\<close>

lemma match_hands_pending_distinct:
  assumes d: "distinct (map fst pv0)"
    and mh: "match_hands rs pz fn hbs (hs0, pv0, m0, nh0) = (hs', pv', m', nh')"
  shows "distinct (map fst pv')"
proof -
  have "case match_hands rs pz fn hbs (hs0, pv0, m0, nh0) of
          (hs', pv', m', nh') \<Rightarrow> distinct (map fst pv')"
  proof (rule match_hands_rule[where P = "\<lambda>hs pv m nh. distinct (map fst pv)"])
    show "distinct (map fst pv0)" by (rule d)
  next
    fix hb hs pv m nh k h h' pv'
    assume dp: "distinct (map fst pv)"
      and sm: "state_machine rs pz fn hb k h pv = (h', pv')"
    from state_machine_facts(3)[OF sm] dp show "distinct (map fst pv')"
      by (auto intro: AList.distinct_update)
  qed simp
  with mh show ?thesis by simp
qed

lemma no_pending_no_violation:
  assumes e: "pending_violations self = []"
  shows "snd (update self hb sb pb fn) = []"
proof -
  obtain hs1 pv1 m nh where
    mh: "match_hands (rois self) pb fn hb (hands self, pending_violations self, {}, [])
          = (hs1, pv1, m, nh)"
    by (cases "match_hands (rois self) pb fn hb (hands self, pending_violations self, {}, [])")
  obtain hs2 nid where an: "add_new_hands (rois self) nh (hs1, next_id self) = (hs2, nid)"
    by (cases "add_new_hands (rois self) nh (hs1, next_id self)")
  define s1 where "s1 = self\<lparr>next_id := nid, hands := hs2,
      scooper_history := push_scoopers (scooper_history self) sb, pending_violations := pv1\<rparr>"
  have bc: "before_check self hb sb pb fn = (s1, m)"
    by (simp add: before_check_def mh an s1_def)
  have dp: "distinct (map fst pv1)"
    using _ mh by (rule match_hands_pending_distinct) (simp add: e)
  have zero: "delay_counter (snd x) = 0" if x: "x \<in> set pv1" for x
  proof -
    from x have "(fst x, snd x) \<in> set pv1" by simp
    from map_of_is_SomeI[OF dp this] match_hands_origin[OF mh] e
    show ?thesis by auto
  qed
  have "filter (commits (concat (scooper_history s1))) pv1 = []"
    unfolding filter_empty_conv
    using zero by (simp add: commits_def VIOLATION_DELAY_FRAMES_def)
  then show ?thesis
    by (simp add: update_eq[OF bc refl refl refl refl] s1_def)
qed

text \<open>
  In the session \<open>scenario_frame\<close> the pending violation of hand 0 has a counter of 8
  after frame 22. The update for frame 23 changes no hand and returns no violation; the
  same update called a second time returns a violation. And where nothing is pending, as
  at frame 14, the second call still lengthens the scooper history.
\<close>

theorem replayed_frame_commits_counterexample:
  "hands (fst (update (scenario_upto 22) [(480, 340, 580, 400)] [] [(500, 350, 600, 450)] 23))
     = hands (scenario_upto 22) \<and>
   snd (update (scenario_upto 22) [(480, 340, 580, 400)] [] [(500, 350, 600, 450)] 23) = [] \<and>
   snd (update
          (fst (update (scenario_upto 22) [(480, 340, 580, 400)] [] [(500, 350, 600, 450)] 23))
          [(480, 340, 580, 400)] [] [(500, 350, 600, 450)] 23)
     = [\<lparr>vframe = 23, hand_id = 0, vroi_name = ''Cheese''\<rparr>] \<and>
   pending_violations (fst (update (scenario_upto 13) [(480, 340, 580, 400)] [] [] 14)) = [] \<and>
   length (scooper_history (fst (update (scenario_upto 13) [(480, 340, 580, 400)] [] [] 14)))
     = 5 \<and>
   length (scooper_history (fst (update
          (fst (update (scenario_upto 13) [(480, 340, 580, 400)] [] [] 14))
          [(480, 340, 580, 400)] [] [] 14))) = 6"
  by code_simp

text \<open>
  C7. When the first of two updates with the same inputs leaves no pending violation
  open, the second one returns no violation and leaves \<open>self.violations\<close>, hence the
  count, as the first one left them.
\<close>

theorem replay_without_pending_is_silent:
  assumes "pending_violations (fst (update self hb sb pb fn)) = []"
    and "again = update (fst (update self hb sb pb fn)) hb sb pb fn"
  shows "snd again = [] \<and>
         violations (fst again) = violations (fst (update self hb sb pb fn)) \<and>
         get_violation_count (fst again) = get_violation_count (fst (update self hb sb pb fn))"
proof -
  have "snd again = []"
    unfolding assms(2) using assms(1) by (rule no_pending_no_violation)
  moreover have "violations (fst again) = violations (fst (update self hb sb pb fn)) @ snd again"
    unfolding assms(2) by (rule update_violations)
  ultimately show ?thesis by (simp add: get_violation_count_def)
qed

theorem replay_without_pending_is_silent_witness:
  "pending_violations (fst (update (scenario_upto 13) [(480, 340, 580, 400)] [] [] 14)) = [] \<and>
   snd (update (fst (update (scenario_upto 13) [(480, 340, 580, 400)] [] [] 14))
          [(480, 340, 580, 400)] [] [] 14) = [] \<and>
   get_violation_count (fst (update (fst (update (scenario_upto 13) [(480, 340, 580, 400)] [] [] 14))
          [(480, 340, 580, 400)] [] [] 14)) = 0"
proof -
  let ?u = "update (scenario_upto 13) [(480, 340, 580, 400)] [] [] 14"
  have e: "pending_violations (fst ?u) = []" by code_simp
  have c: "get_violation_count (fst ?u) = 0" by code_simp
  from replay_without_pending_is_silent[OF e refl] e c show ?thesis by simp
qed

text \<open>
  The scenario of the specification, fed to a fresh tracker with the region \<open>Cheese\<close>:
  the pending violation opened at frame 15 is committed by the update for frame 24, so
  the update for frame 25 returns no violation.
\<close>

theorem scenario_frame_25_counterexample:
  "map fst (hands (scenario_upto 10)) = [0] \<and>
   map (state \<circ> snd) (hands (scenario_upto 10)) = [In_roi] \<and>
   map (state \<circ> snd) (hands (scenario_upto 11)) = [Tracking_to_pizza] \<and>
   map (state \<circ> snd) (hands (scenario_upto 14)) = [Tracking_to_pizza] \<and>
   pending_violations (scenario_upto 14) = [] \<and>
   map (state \<circ> snd) (hands (scenario_upto 15)) = [Waiting_at_pizza] \<and>
   map fst (pending_violations (scenario_upto 15)) = [0] \<and>
   scenario_frame 25 = ([(480, 340, 580, 400)], [], [(500, 350, 600, 450)], 25) \<and>
   snd (update (scenario_upto 24) [(480, 340, 580, 400)] [] [(500, 350, 600, 450)] 25) = []"
  by code_simp

text \<open>
  C1. In the scenario, hand 0 is created in state \<open>in_roi\<close> at frame 10, is in state
  \<open>tracking_to_pizza\<close> after frame 11 and in state \<open>waiting_at_pizza\<close>, with a pending
  violation opened, after frame 15; no scooper is ever seen. The updates for frames 10 to
  23 return no violation, the update for frame 24 returns exactly the violation of hand 0
  from \<open>Cheese\<close> with frame 24, and the update for frame 25 returns none; the count is 0
  after frame 23 and 1 after frames 24 and 25.
\<close>

theorem scenario_violation_at_frame_24:
  "hands (scenario_upto 10) =
     [(0, \<lparr>box = (440, 340, 540, 400), state = In_roi, frames_since_update = 1,
           roi_name = ''Cheese''\<rparr>)] \<and>
   hands (scenario_upto 11) =
     [(0, \<lparr>box = (480, 340, 580, 400), state = Tracking_to_pizza, frames_since_update = 0,
           roi_name = ''Cheese''\<rparr>)] \<and>
   hands (scenario_upto 15) =
     [(0, \<lparr>box = (480, 340, 580, 400), state = Waiting_at_pizza, frames_since_update = 0,
           roi_name = ''Cheese''\<rparr>)] \<and>
   pending_violations (scenario_upto 15) =
     [(0, \<lparr>frame = 15, pizza_box = (500, 350, 600, 450), pending_roi_name = ''Cheese'',
           delay_counter = 1\<rparr>)] \<and>
   concat (map (fst \<circ> snd) (map scenario_frame [10..25])) = [] \<and>
   snd (run (HandTracker [cheese]) (map scenario_frame [10..25])) =
     replicate 14 [] @ [[\<lparr>vframe = 24, hand_id = 0, vroi_name = ''Cheese''\<rparr>], []] \<and>
   get_violation_count (scenario_upto 23) = 0 \<and>
   get_violation_count (scenario_upto 24) = 1 \<and>
   get_violation_count (scenario_upto 25) = 1"
  by code_simp

end
